theory Spec2Isabelle
  imports Complex_Main "HOL-Library.Sublist" "HOL-Library.Monad_Syntax"
begin

section \<open>Errors\<close>

text \<open>
  The exceptions the modelled code raises. \<open>ValueError\<close> carries the fixed part of the
  message of the source (\<open>security_data.py\<close>, \<open>rules/rule.py\<close>); \<open>ValidationError\<close> is the
  error of the field validation of \<open>SecurityData\<close>; \<open>KeyError\<close> is a failed dictionary access
  that nothing catches.
\<close>

datatype error = KeyError | ValueError string | ValidationError

section \<open>The entity graph (\<open>security_data.py\<close>)\<close>

text \<open>
  An \<open>AffectedEntity\<close> is a Python object: besides its three attributes it has an identity
  (\<open>ident\<close>), which is what a weak reference refers to and what \<open>copy.deepcopy\<close> keys its
  memo on. The attributes are never assigned after construction. A tag is a \<open>Dict\<close>, here
  an association list read with \<open>map_of\<close>.
\<close>

type_synonym addr = nat

type_synonym tag = "(string \<times> string) list"

record AffectedEntity =
  ident :: addr
  entity_id :: string
  entity_name :: string
  tags :: "tag list"

text \<open>
  A \<open>RelatedEntity\<close> holds a \<open>weakref.WeakSet\<close> of affected entities. The fields carry the
  prefix \<open>rel_\<close> because a record field is a constant of the theory.
\<close>

record RelatedEntity =
  rel_entity_id :: string
  rel_entity_name :: string
  rel_affected_entities :: "AffectedEntity list"

text \<open>
  The store is the part of the Python heap the program depends on: which
  \<open>AffectedEntity\<close> objects are alive, and the next fresh identity. An object is alive as
  long as a dictionary entry refers to it; the entries of \<open>SecurityData.affected_entities\<close>
  are the only strong references that outlive a call. Identities are never reused, so a
  dead weak reference stays dead; the weak set shows the referents that are alive.
\<close>

record store =
  live :: "addr set"
  next_ident :: addr

record SecurityData =
  identifier' :: string
  display_id :: string
  title :: string
  url :: string
  risk_score :: real
  risk_level :: string
  exposure :: string
  data_assets :: string
  technology :: string
  description :: string
  vulnerable_components :: "string set"
  affected_entities :: "(string \<times> AffectedEntity) list"
  related_hosts :: "RelatedEntity list"

text \<open>What iterating (or taking \<open>len\<close> of) the weak set of a related entity yields.\<close>

definition weak_items :: "store \<Rightarrow> RelatedEntity \<Rightarrow> AffectedEntity list" where
  "weak_items s r = filter (\<lambda>x. ident x \<in> live s) (rel_affected_entities r)"

subsection \<open>Derived views\<close>

definition affected_entity_names :: "SecurityData \<Rightarrow> string list" where
  "affected_entity_names g = map (\<lambda>(k, x). entity_name x) (affected_entities g)"

text \<open>\<open>[x['stringRepresentation'] for x in ae.tags]\<close>: a tag without the key raises.\<close>

fun string_representations :: "tag list \<Rightarrow> error + string list" where
  "string_representations [] = Inr []"
| "string_representations (t # ts) =
     (case map_of t ''stringRepresentation'' of
        None \<Rightarrow> Inl KeyError
      | Some v \<Rightarrow>
          (case string_representations ts of
             Inl e \<Rightarrow> Inl e
           | Inr vs \<Rightarrow> Inr (v # vs)))"

fun all_string_representations :: "AffectedEntity list \<Rightarrow> error + string list" where
  "all_string_representations [] = Inr []"
| "all_string_representations (x # xs) =
     (case string_representations (tags x) of
        Inl e \<Rightarrow> Inl e
      | Inr vs \<Rightarrow>
          (case all_string_representations xs of
             Inl e \<Rightarrow> Inl e
           | Inr ws \<Rightarrow> Inr (vs @ ws)))"

text \<open>The view is a Python set; the list has no duplicates and its order is not used.\<close>

definition affected_entity_tags :: "SecurityData \<Rightarrow> error + string list" where
  "affected_entity_tags g =
     (case all_string_representations (map snd (affected_entities g)) of
        Inl e \<Rightarrow> Inl e
      | Inr vs \<Rightarrow> Inr (remdups vs))"

definition related_hostnames :: "store \<Rightarrow> SecurityData \<Rightarrow> string list" where
  "related_hostnames s g =
     map rel_entity_name (filter (\<lambda>r. weak_items s r \<noteq> []) (related_hosts g))"

subsection \<open>Deleting from the affected-entity dictionary\<close>

text \<open>
  \<open>del self.affected_entities[x]\<close>: a missing key raises \<open>KeyError\<close>. The entry is removed
  and, unless another entry still holds the object, the object dies, which removes it from
  every weak set.
\<close>

definition del_item ::
  "store \<Rightarrow> (string \<times> AffectedEntity) list \<Rightarrow> string
     \<Rightarrow> error + (store \<times> (string \<times> AffectedEntity) list)" where
  "del_item s d k =
     (case map_of d k of
        None \<Rightarrow> Inl KeyError
      | Some x \<Rightarrow>
          (let d' = filter (\<lambda>(k', y). k' \<noteq> k) d
           in Inr (if ident x \<in> set (map (\<lambda>(k', y). ident y) d') then s
                   else s\<lparr>live := live s - {ident x}\<rparr>, d')))"

text \<open>\<open>for x in entity_ids_to_delete: del self.affected_entities[x]\<close>\<close>

fun del_items ::
  "store \<Rightarrow> (string \<times> AffectedEntity) list \<Rightarrow> string list
     \<Rightarrow> error + (store \<times> (string \<times> AffectedEntity) list)" where
  "del_items s d [] = Inr (s, d)"
| "del_items s d (k # ks) =
     (case del_item s d k of
        Inl e \<Rightarrow> Inl e
      | Inr (s', d') \<Rightarrow> del_items s' d' ks)"

subsection \<open>Removal operations\<close>

text \<open>
  The sets of ids the source builds are lists without duplicates here; the source iterates
  them in an unspecified order, and the result does not depend on the order.
\<close>

definition remove_affected_entities_by_name ::
  "store \<Rightarrow> SecurityData \<Rightarrow> string set \<Rightarrow> bool \<Rightarrow> error + (store \<times> SecurityData)" where
  "remove_affected_entities_by_name s g entity_names remove_matches =
     (let entity_ids =
            remdups (map (\<lambda>(k, x). entity_id x)
              (filter (\<lambda>(k, x). entity_name x \<in> entity_names) (affected_entities g)));
          entity_ids_to_delete =
            (if remove_matches then entity_ids
             else filter (\<lambda>k. k \<notin> set entity_ids) (remdups (map fst (affected_entities g))))
      in case del_items s (affected_entities g) entity_ids_to_delete of
           Inl e \<Rightarrow> Inl e
         | Inr (s', d') \<Rightarrow> Inr (s', g\<lparr>affected_entities := d'\<rparr>))"

text \<open>
  \<open>any([x in tags for x in entity_tags])\<close> for one affected entity; the list of its tags'
  string representations is built first and raises on a tag without the key.
\<close>

definition has_any_tag :: "string set \<Rightarrow> AffectedEntity \<Rightarrow> error + bool" where
  "has_any_tag entity_tags ae =
     (case string_representations (tags ae) of
        Inl e \<Rightarrow> Inl e
      | Inr ts \<Rightarrow> Inr (\<exists>x \<in> set ts. x \<in> entity_tags))"

fun tagged_entity_ids :: "string set \<Rightarrow> AffectedEntity list \<Rightarrow> error + string list" where
  "tagged_entity_ids entity_tags [] = Inr []"
| "tagged_entity_ids entity_tags (ae # aes) =
     (case has_any_tag entity_tags ae of
        Inl e \<Rightarrow> Inl e
      | Inr b \<Rightarrow>
          (case tagged_entity_ids entity_tags aes of
             Inl e \<Rightarrow> Inl e
           | Inr ids \<Rightarrow> Inr (if b then entity_id ae # ids else ids)))"

definition remove_affected_entities_by_tags ::
  "store \<Rightarrow> SecurityData \<Rightarrow> string set \<Rightarrow> bool \<Rightarrow> error + (store \<times> SecurityData)" where
  "remove_affected_entities_by_tags s g entity_tags remove_matches =
     (case tagged_entity_ids entity_tags (map snd (affected_entities g)) of
        Inl e \<Rightarrow> Inl e
      | Inr ids \<Rightarrow>
          (let entity_ids = remdups ids;
               entity_ids_to_delete =
                 (if remove_matches then entity_ids
                  else filter (\<lambda>k. k \<notin> set entity_ids)
                         (remdups (map fst (affected_entities g))))
           in case del_items s (affected_entities g) entity_ids_to_delete of
                Inl e \<Rightarrow> Inl e
              | Inr (s', d') \<Rightarrow> Inr (s', g\<lparr>affected_entities := d'\<rparr>)))"

text \<open>
  \<open>__remove_affected_entities_by_related_entity_name\<close> followed by the rebuilding of
  \<open>related_hosts\<close>: the ids are read through the weak sets of the related hosts whose name
  is in \<open>hostnames\<close>; afterwards the hosts whose weak set is empty are dropped.
\<close>

definition remove_affected_entities_by_related_hostnames ::
  "store \<Rightarrow> SecurityData \<Rightarrow> string set \<Rightarrow> bool \<Rightarrow> error + (store \<times> SecurityData)" where
  "remove_affected_entities_by_related_hostnames s g hostnames remove_matches =
     (let affected_entity_ids =
            remdups (concat (map (\<lambda>related_host. map entity_id (weak_items s related_host))
              (filter (\<lambda>related_host. rel_entity_name related_host \<in> hostnames)
                 (related_hosts g))));
          affected_entity_ids_to_remove =
            (if remove_matches then affected_entity_ids
             else filter (\<lambda>x. x \<notin> set affected_entity_ids)
                    (remdups (map fst (affected_entities g))))
      in case del_items s (affected_entities g) affected_entity_ids_to_remove of
           Inl e \<Rightarrow> Inl e
         | Inr (s', d') \<Rightarrow>
             Inr (s', g\<lparr>affected_entities := d',
                        related_hosts := filter (\<lambda>x. weak_items s' x \<noteq> []) (related_hosts g)\<rparr>))"

subsection \<open>Cloning (\<open>copy.deepcopy\<close>)\<close>

text \<open>
  \<open>copy.deepcopy\<close> threads a memo from the identity of an object to its copy. An
  \<open>AffectedEntity\<close> that is already in the memo is not copied again; otherwise a new object
  with the same attribute values is allocated and recorded.
\<close>

type_synonym memo = "addr \<rightharpoonup> AffectedEntity"

definition deepcopy_entity ::
  "store \<Rightarrow> memo \<Rightarrow> AffectedEntity \<Rightarrow> store \<times> memo \<times> AffectedEntity" where
  "deepcopy_entity s memo x =
     (case memo (ident x) of
        Some y \<Rightarrow> (s, memo, y)
      | None \<Rightarrow>
          (let y = x\<lparr>ident := next_ident s\<rparr>
           in (s\<lparr>live := insert (next_ident s) (live s), next_ident := Suc (next_ident s)\<rparr>,
               memo(ident x \<mapsto> y), y)))"

fun deepcopy_dict ::
  "store \<Rightarrow> memo \<Rightarrow> (string \<times> AffectedEntity) list
     \<Rightarrow> store \<times> memo \<times> (string \<times> AffectedEntity) list" where
  "deepcopy_dict s memo [] = (s, memo, [])"
| "deepcopy_dict s memo ((k, x) # d) =
     (let (s1, memo1, y) = deepcopy_entity s memo x;
          (s2, memo2, d') = deepcopy_dict s1 memo1 d
      in (s2, memo2, (k, y) # d'))"

text \<open>
  \<open>RelatedEntity.__deepcopy__\<close>: the new weak set is built from the copies of the referents
  that are alive, \<open>copy.deepcopy(x, memo)\<close> for each. A referent that is in the memo yields
  the copy the new dictionary holds. A referent that is not would be copied as well, but
  only the memo holds that copy, so it is dead, and not in the weak set, once the outer
  \<open>deepcopy\<close> returns.
\<close>

definition deepcopy_related :: "store \<Rightarrow> memo \<Rightarrow> RelatedEntity \<Rightarrow> RelatedEntity" where
  "deepcopy_related s memo r =
     r\<lparr>rel_affected_entities := List.map_filter (\<lambda>x. memo (ident x)) (weak_items s r)\<rparr>"

text \<open>
  \<open>copy.deepcopy(security_data)\<close>: the attributes are copied in the order of their
  declaration, \<open>affected_entities\<close> before \<open>related_hosts\<close>; strings and numbers are values.
\<close>

definition deepcopy :: "store \<Rightarrow> SecurityData \<Rightarrow> store \<times> SecurityData" where
  "deepcopy s g =
     (let (s', memo, d') = deepcopy_dict s Map.empty (affected_entities g)
      in (s', g\<lparr>affected_entities := d',
                 related_hosts := map (deepcopy_related s' memo) (related_hosts g)\<rparr>))"

subsection \<open>Construction (\<open>SecurityData.create\<close>)\<close>

text \<open>
  The raw security problem is a JSON object; a field that can be missing is an option.
  The lookup tables are dictionaries from an id to the \<open>EntityDetails\<close> fetched for it.
\<close>

record EntityDetails =
  ed_entity_id :: string
  ed_entity_name :: string
  ed_tags :: "tag list"

record raw_host =
  host_id :: "string option"
  host_affectedEntities :: "string list option"

record raw_relatedEntities =
  hosts :: "raw_host list option"

record raw_riskAssessment =
  riskScore :: "real option"
  riskLevel :: "string option"
  ra_exposure :: "string option"
  dataAssets :: "string option"

record raw_component =
  displayName :: "string option"

record raw_security_problem =
  securityProblemId :: "string option"
  displayId :: "string option"
  sp_title :: "string option"
  sp_url :: "string option"
  riskAssessment :: "raw_riskAssessment option"
  sp_description :: "string option"
  sp_technology :: "string option"
  vulnerableComponents :: "raw_component list option"
  affectedEntities :: "string list option"
  relatedEntities :: "raw_relatedEntities option"

text \<open>
  The list comprehension over \<open>security_problem['affectedEntities']\<close>: one new object per
  listed id, \<open>None\<close> when an id is not in the lookup table (\<open>KeyError\<close>).
\<close>

fun make_affected_entities ::
  "(string \<rightharpoonup> EntityDetails) \<Rightarrow> addr \<Rightarrow> string list \<Rightarrow> AffectedEntity list option" where
  "make_affected_entities all_affected_entities n [] = Some []"
| "make_affected_entities all_affected_entities n (x # xs) =
     (case all_affected_entities x of
        None \<Rightarrow> None
      | Some e \<Rightarrow>
          (case make_affected_entities all_affected_entities (Suc n) xs of
             None \<Rightarrow> None
           | Some aes \<Rightarrow>
               Some (\<lparr>ident = n, entity_id = ed_entity_id e,
                      entity_name = ed_entity_name e, tags = ed_tags e\<rparr> # aes)))"

text \<open>
  One \<open>RelatedEntity\<close>. The condition \<open>z.entity_id in x['affectedEntities']\<close> is evaluated
  once per affected entity, so the key is read only when there is an affected entity.
\<close>

definition make_related_host ::
  "(string \<rightharpoonup> EntityDetails) \<Rightarrow> AffectedEntity list \<Rightarrow> raw_host \<Rightarrow> RelatedEntity option" where
  "make_related_host all_related_hosts affected x =
     do {
       i \<leftarrow> host_id x;
       e \<leftarrow> all_related_hosts i;
       refs \<leftarrow> (if affected = [] then Some []
                else do {
                  ids \<leftarrow> host_affectedEntities x;
                  Some (filter (\<lambda>z. entity_id z \<in> set ids) affected)
                });
       Some \<lparr>rel_entity_id = ed_entity_id e, rel_entity_name = ed_entity_name e,
             rel_affected_entities = refs\<rparr>
     }"

fun make_related_hosts ::
  "(string \<rightharpoonup> EntityDetails) \<Rightarrow> AffectedEntity list \<Rightarrow> raw_host list
     \<Rightarrow> RelatedEntity list option" where
  "make_related_hosts all_related_hosts affected [] = Some []"
| "make_related_hosts all_related_hosts affected (x # xs) =
     do {
       r \<leftarrow> make_related_host all_related_hosts affected x;
       rs \<leftarrow> make_related_hosts all_related_hosts affected xs;
       Some (r # rs)
     }"

fun display_names :: "raw_component list \<Rightarrow> string list option" where
  "display_names [] = Some []"
| "display_names (c # cs) =
     do {
       n \<leftarrow> displayName c;
       ns \<leftarrow> display_names cs;
       Some (n # ns)
     }"

text \<open>\<open>d[k] = v\<close> on an insertion-ordered dictionary.\<close>

fun dict_set :: "'k \<Rightarrow> 'v \<Rightarrow> ('k \<times> 'v) list \<Rightarrow> ('k \<times> 'v) list" where
  "dict_set k v [] = [(k, v)]"
| "dict_set k v ((k', v') # d) =
     (if k' = k then (k, v) # d else (k', v') # dict_set k v d)"

text \<open>\<open>{x.entity_id: x for x in affected_entities}\<close>\<close>

definition dict_by_entity_id :: "AffectedEntity list \<Rightarrow> (string \<times> AffectedEntity) list" where
  "dict_by_entity_id xs = foldl (\<lambda>d x. dict_set (entity_id x) x d) [] xs"

text \<open>
  The body of the \<open>try\<close> block: every read of a missing key makes it \<open>None\<close>, which the
  \<open>except KeyError\<close> clause turns into the \<open>ValueError\<close>. The new objects take the
  identities from \<open>n\<close> on.
\<close>

definition create_data ::
  "addr \<Rightarrow> raw_security_problem \<Rightarrow> (string \<rightharpoonup> EntityDetails) \<Rightarrow> (string \<rightharpoonup> EntityDetails)
     \<Rightarrow> SecurityData option" where
  "create_data n security_problem all_affected_entities all_related_hosts =
     do {
       ids \<leftarrow> affectedEntities security_problem;
       affected \<leftarrow> make_affected_entities all_affected_entities n ids;
       rel \<leftarrow> relatedEntities security_problem;
       hs \<leftarrow> hosts rel;
       related \<leftarrow> make_related_hosts all_related_hosts affected hs;
       the_identifier \<leftarrow> securityProblemId security_problem;
       the_display_id \<leftarrow> displayId security_problem;
       the_title \<leftarrow> sp_title security_problem;
       the_url \<leftarrow> sp_url security_problem;
       ra \<leftarrow> riskAssessment security_problem;
       the_risk_score \<leftarrow> riskScore ra;
       the_risk_level \<leftarrow> riskLevel ra;
       the_exposure \<leftarrow> ra_exposure ra;
       the_data_assets \<leftarrow> dataAssets ra;
       the_description \<leftarrow> sp_description security_problem;
       the_technology \<leftarrow> sp_technology security_problem;
       cs \<leftarrow> vulnerableComponents security_problem;
       names \<leftarrow> display_names cs;
       Some \<lparr>identifier' = the_identifier, display_id = the_display_id, title = the_title,
             url = the_url, risk_score = the_risk_score, risk_level = the_risk_level,
             exposure = the_exposure, data_assets = the_data_assets,
             technology = the_technology, description = the_description,
             vulnerable_components = set names,
             affected_entities = dict_by_entity_id affected, related_hosts = related\<rparr>
     }"

text \<open>
  \<open>SecurityData.create\<close>. \<open>SecurityData(**data)\<close> validates the fields: the risk score must
  lie in \<open>[0, 10]\<close>, the url must be an http url, and four fields are upper-cased. The
  url check of the validation library and \<open>str.upper\<close> are library functions, the
  parameters \<open>valid_url\<close> and \<open>str_upper\<close>. On success the objects that the new dictionary
  holds are alive; the others made for a repeated id are not.
\<close>

definition create ::
  "(string \<Rightarrow> bool) \<Rightarrow> (string \<Rightarrow> string) \<Rightarrow> store \<Rightarrow> raw_security_problem
     \<Rightarrow> (string \<rightharpoonup> EntityDetails) \<Rightarrow> (string \<rightharpoonup> EntityDetails)
     \<Rightarrow> error + (store \<times> SecurityData)" where
  "create valid_url str_upper s security_problem all_affected_entities all_related_hosts =
     (case create_data (next_ident s) security_problem all_affected_entities all_related_hosts of
        None \<Rightarrow> Inl (ValueError ''SecurityData: missing data'')
      | Some data \<Rightarrow>
          if \<not> valid_url (url data) \<or> risk_score data < 0 \<or> 10 < risk_score data
          then Inl ValidationError
          else Inr (s\<lparr>live := live s \<union> (\<lambda>(k, x). ident x) ` set (affected_entities data),
                      next_ident := next_ident s
                        + (case affectedEntities security_problem of
                             None \<Rightarrow> 0 | Some ids \<Rightarrow> length ids)\<rparr>,
                    data\<lparr>risk_level := str_upper (risk_level data),
                         technology := str_upper (technology data),
                         exposure := str_upper (exposure data),
                         data_assets := str_upper (data_assets data)\<rparr>))"

section \<open>Operators\<close>

text \<open>
  Modelled from the spec: \<open>rules/operators.py\<close> is not among the sources. The spec (4.2)
  gives six pure, total functions \<open>(candidate, pattern) \<rightarrow> bool\<close>; the case-insensitive ones
  normalise both operands with the same case folding and delegate to the case-sensitive
  form. The folding here is lower-casing of the ASCII letters.
\<close>

definition equals :: "string \<Rightarrow> string \<Rightarrow> bool" where
  "equals candidate pattern \<longleftrightarrow> candidate = pattern"

definition startswith :: "string \<Rightarrow> string \<Rightarrow> bool" where
  "startswith candidate pattern \<longleftrightarrow> prefix pattern candidate"

definition contains :: "string \<Rightarrow> string \<Rightarrow> bool" where
  "contains candidate pattern \<longleftrightarrow> sublist pattern candidate"

definition lower :: "string \<Rightarrow> string" where
  "lower v =
     map (\<lambda>c. let n = (of_char c :: nat) in if 65 \<le> n \<and> n \<le> 90 then char_of (n + 32) else c) v"

definition equals_ignore_case :: "string \<Rightarrow> string \<Rightarrow> bool" where
  "equals_ignore_case candidate pattern \<longleftrightarrow> equals (lower candidate) (lower pattern)"

definition startswith_ignore_case :: "string \<Rightarrow> string \<Rightarrow> bool" where
  "startswith_ignore_case candidate pattern \<longleftrightarrow> startswith (lower candidate) (lower pattern)"

definition contains_ignore_case :: "string \<Rightarrow> string \<Rightarrow> bool" where
  "contains_ignore_case candidate pattern \<longleftrightarrow> contains (lower candidate) (lower pattern)"

section \<open>Rules (\<open>rules/rule.py\<close> and the rule classes)\<close>

datatype rule_class = HostnameRule | AffectedEntityRule | AffectedEntityTagRule

text \<open>
  \<open>SUPPORTED_OPERATORS\<close>, the same dictionary in \<open>AffectedEntityRule\<close> and in
  \<open>AffectedEntityTagRule\<close>.
\<close>

definition SUPPORTED_OPERATORS :: "(string \<times> (string \<Rightarrow> string \<Rightarrow> bool)) list" where
  "SUPPORTED_OPERATORS =
     [(''startswith'', startswith),
      (''startswithIgnoreCase'', startswith_ignore_case),
      (''equals'', equals),
      (''equalsIgnoreCase'', equals_ignore_case),
      (''contains'', contains),
      (''containsIgnoreCase'', contains_ignore_case)]"

text \<open>
  Modelled from the spec: \<open>rules/hostname_rule.py\<close> is not among the sources. The spec (4.3,
  6) gives the variant for the related-host name the same six operators, the view
  \<open>related_hostnames\<close> as its target and the removal by related hostnames as its partition
  strategy; the three variants differ in nothing else.
\<close>

definition HOSTNAME_SUPPORTED_OPERATORS :: "(string \<times> (string \<Rightarrow> string \<Rightarrow> bool)) list" where
  "HOSTNAME_SUPPORTED_OPERATORS = SUPPORTED_OPERATORS"

fun supported_operators :: "rule_class \<Rightarrow> (string \<times> (string \<Rightarrow> string \<Rightarrow> bool)) list" where
  "supported_operators HostnameRule = HOSTNAME_SUPPORTED_OPERATORS"
| "supported_operators AffectedEntityRule = SUPPORTED_OPERATORS"
| "supported_operators AffectedEntityTagRule = SUPPORTED_OPERATORS"

text \<open>
  The minimum score of a rule is the number of the rule description as the configuration
  gives it: a Python int or a Python float. The two are compared by value, and \<open>str\<close>
  writes them differently (\<open>8\<close> and \<open>8.0\<close>). The floats are the reals and the negative
  zero, which equals zero and is written \<open>-0.0\<close>.
\<close>

datatype number = PyInt int | PyFloat real | PyNegZero

fun num_value :: "number \<Rightarrow> real" where
  "num_value (PyInt i) = of_int i"
| "num_value (PyFloat v) = v"
| "num_value PyNegZero = 0"

record rule =
  cls :: rule_class
  "value" :: string
  operator :: string
  eval_function :: "string \<Rightarrow> string \<Rightarrow> bool"
  minimum_score :: "number option"
  stop_after_match :: bool
  params :: "(string \<times> string) list"

text \<open>
  The truth value of \<open>minimum_score\<close> in a condition: \<open>None\<close> and zero are false.
\<close>

definition truthy :: "number option \<Rightarrow> bool" where
  "truthy m \<longleftrightarrow> (case m of None \<Rightarrow> False | Some v \<Rightarrow> num_value v \<noteq> 0)"

text \<open>\<open>Rule.__init__\<close>, called by the constructor of each rule class.\<close>

definition Rule_init ::
  "rule_class \<Rightarrow> string option \<Rightarrow> string \<Rightarrow> number option \<Rightarrow> bool \<Rightarrow> (string \<times> string) list
     \<Rightarrow> error + rule" where
  "Rule_init c v op ms sam ps =
     (case v of
        None \<Rightarrow> Inl (ValueError ''Rule: value required'')
      | Some the_value \<Rightarrow>
          if op = [] then Inl (ValueError ''Rule: operator required'')
          else if truthy ms \<and> (num_value (the ms) < 0 \<or> num_value (the ms) > 10)
            then Inl (ValueError ''Rule: 0<=minimum_score<=10 required'')
          else if ps = [] then Inl (ValueError ''Rule: params required'')
          else
            (case map_of (supported_operators c) op of
               None \<Rightarrow> Inl (ValueError ''Rule: operator not supported'')
             | Some f \<Rightarrow>
                 Inr \<lparr>cls = c, value = the_value, operator = op, eval_function = f,
                      minimum_score = ms, stop_after_match = sam, params = ps\<rparr>))"

text \<open>
  \<open>Rule.create\<close>. The rule description is a dictionary whose keys can be missing.
\<close>

record rule_description =
  rd_type :: "string option"
  rd_value :: "string option"
  rd_operator :: "string option"
  rd_params :: "(string \<times> string) list option"
  rd_minimumScore :: "number option"
  rd_stopAfterMatch :: "bool option"

definition supported_rule_types :: "(string \<times> rule_class) list" where
  "supported_rule_types =
     [(''hostname'', HostnameRule),
      (''affectedEntity'', AffectedEntityRule),
      (''affectedEntityTag'', AffectedEntityTagRule)]"

definition Rule_create :: "rule_description \<Rightarrow> error + rule" where
  "Rule_create rd =
     (case rd_type rd of
        None \<Rightarrow> Inl (ValueError ''Rule: need type to create rule'')
      | Some t \<Rightarrow>
          (case map_of supported_rule_types t of
             None \<Rightarrow> Inl (ValueError ''Rule: unsupported type'')
           | Some c \<Rightarrow>
               (case (rd_value rd, rd_operator rd, rd_params rd) of
                  (Some v, Some op, Some ps) \<Rightarrow>
                    Rule_init c (Some v) op (rd_minimumScore rd)
                      (case rd_stopAfterMatch rd of None \<Rightarrow> False | Some b \<Rightarrow> b) ps
                | _ \<Rightarrow> Inl (ValueError ''Rule: need value, operator, params''))))"

subsection \<open>The rule id\<close>







subsection \<open>Matching\<close>

text \<open>
  \<open>getattr(security_data, self.target_attribute_name)\<close>. All three views are collections,
  so the branch of \<open>match\<close> for a single value is not taken.
\<close>

fun target_attribute_values :: "rule_class \<Rightarrow> store \<Rightarrow> SecurityData \<Rightarrow> error + string list" where
  "target_attribute_values HostnameRule s g = Inr (related_hostnames s g)"
| "target_attribute_values AffectedEntityRule s g = Inr (affected_entity_names g)"
| "target_attribute_values AffectedEntityTagRule s g = affected_entity_tags g"

fun partition_strategy ::
  "rule_class \<Rightarrow> store \<Rightarrow> SecurityData \<Rightarrow> string set \<Rightarrow> bool \<Rightarrow> error + (store \<times> SecurityData)" where
  "partition_strategy HostnameRule = remove_affected_entities_by_related_hostnames"
| "partition_strategy AffectedEntityRule = remove_affected_entities_by_name"
| "partition_strategy AffectedEntityTagRule = remove_affected_entities_by_tags"

text \<open>
  \<open>_get_match_and_remainder\<close>: the remainder is a deep copy; the graph keeps the matches,
  the copy loses them.
\<close>

definition get_match_and_remainder ::
  "rule_class \<Rightarrow> store \<Rightarrow> SecurityData \<Rightarrow> string set
     \<Rightarrow> error + (store \<times> SecurityData \<times> SecurityData)" where
  "get_match_and_remainder c s security_data matching =
     (let (s1, remainder) = deepcopy s security_data
      in case partition_strategy c s1 security_data matching False of
           Inl e \<Rightarrow> Inl e
         | Inr (s2, matched) \<Rightarrow>
             (case partition_strategy c s2 remainder matching True of
                Inl e \<Rightarrow> Inl e
              | Inr (s3, remainder') \<Rightarrow> Inr (s3, matched, remainder')))"

text \<open>\<open>Rule.match\<close>\<close>

definition match ::
  "rule \<Rightarrow> store \<Rightarrow> SecurityData option
     \<Rightarrow> error + (store \<times> SecurityData option \<times> SecurityData option)" where
  "match r s sd =
     (case sd of
        None \<Rightarrow> Inr (s, None, None)
      | Some security_data \<Rightarrow>
          if truthy (minimum_score r)
             \<and> risk_score security_data < num_value (the (minimum_score r))
          then Inr (s, None, Some security_data)
          else
            (case target_attribute_values (cls r) s security_data of
               Inl e \<Rightarrow> Inl e
             | Inr target \<Rightarrow>
                 (let matches = filter (\<lambda>x. eval_function r x (value r)) target
                  in if matches = [] then Inr (s, None, Some security_data)
                     else if stop_after_match r then Inr (s, Some security_data, None)
                     else
                       (case get_match_and_remainder (cls r) s security_data (set matches) of
                          Inl e \<Rightarrow> Inl e
                        | Inr (s', matched, remainder) \<Rightarrow>
                            Inr (s', Some matched, Some remainder)))))"

section \<open>Well-formed graphs and example data\<close>

text \<open>
  The invariant of a graph in a store, as \<open>SecurityData.create\<close> builds it and every
  operation keeps it: the dictionary has one entry per key and per object, the key of an
  entry is the \<open>entity_id\<close> of its object, the objects of the dictionary are alive, and a
  referent of a weak set that is alive is an object of the graph's own dictionary. No
  identity at or above \<open>next_ident\<close> is in use.
\<close>

definition wf_graph :: "store \<Rightarrow> SecurityData \<Rightarrow> bool" where
  "wf_graph s g \<longleftrightarrow>
     distinct (map fst (affected_entities g)) \<and>
     distinct (map (\<lambda>(k, x). ident x) (affected_entities g)) \<and>
     (\<forall>(k, x) \<in> set (affected_entities g). entity_id x = k \<and> ident x \<in> live s) \<and>
     (\<forall>a \<in> live s. a < next_ident s) \<and>
     (\<forall>r \<in> set (related_hosts g). \<forall>x \<in> set (rel_affected_entities r).
        ident x < next_ident s \<and>
        (ident x \<in> live s \<longrightarrow> x \<in> snd ` set (affected_entities g)))"

text \<open>The graph of the repository's rule tests: three processes on two hosts.\<close>

definition process1 :: AffectedEntity where
  "process1 = \<lparr>ident = 0, entity_id = ''P1'', entity_name = ''process1'',
               tags = [[(''stringRepresentation'', ''my_tag'')]]\<rparr>"

definition process2 :: AffectedEntity where
  "process2 = \<lparr>ident = 1, entity_id = ''P2'', entity_name = ''process2'', tags = []\<rparr>"

definition process3 :: AffectedEntity where
  "process3 = \<lparr>ident = 2, entity_id = ''P3'', entity_name = ''process3'', tags = []\<rparr>"

definition host1 :: RelatedEntity where
  "host1 = \<lparr>rel_entity_id = ''HOST-1'', rel_entity_name = ''host1'',
             rel_affected_entities = [process1, process2]\<rparr>"

definition host2 :: RelatedEntity where
  "host2 = \<lparr>rel_entity_id = ''HOST-2'', rel_entity_name = ''host2'',
             rel_affected_entities = [process3]\<rparr>"

definition test_store :: store where
  "test_store = \<lparr>live = {0, 1, 2}, next_ident = 3\<rparr>"

definition test_graph :: SecurityData where
  "test_graph =
     \<lparr>identifier' = ''the_id'', display_id = ''the_display_id'', title = ''MitM'',
      url = ''https://fake.example/the_id'', risk_score = 4.3, risk_level = ''MEDIUM'',
      exposure = ''PUBLIC_NETWORK'', data_assets = ''REACHABLE'', technology = ''THE_TECH'',
      description = ''vulnerability description'',
      vulnerable_components = {''component:1.2''},
      affected_entities = [(''P1'', process1), (''P2'', process2), (''P3'', process3)],
      related_hosts = [host1, host2]\<rparr>"

definition test_params :: "(string \<times> string) list" where
  "test_params = [(''foo'', ''bar'')]"

text \<open>
  What a removal leaves when the seed ids are \<open>ids\<close>: with \<open>b\<close> the entries whose key is
  in \<open>ids\<close> are deleted and their objects die, without \<open>b\<close> the other entries are.
\<close>

definition keep_ids :: "string set \<Rightarrow> bool \<Rightarrow> store \<Rightarrow> SecurityData \<Rightarrow> store \<times> SecurityData" where
  "keep_ids ids b s g =
     (s\<lparr>live := live s - (\<lambda>(k, x). ident x) ` {e \<in> set (affected_entities g). (fst e \<in> ids) = b}\<rparr>,
      g\<lparr>affected_entities := filter (\<lambda>e. (fst e \<in> ids) \<noteq> b) (affected_entities g)\<rparr>)"

text \<open>The seed ids of the removal by name and of the removal by related hostnames.\<close>

definition name_ids :: "SecurityData \<Rightarrow> string set \<Rightarrow> string set" where
  "name_ids g entity_names =
     (\<lambda>(k, x). entity_id x) ` {e \<in> set (affected_entities g). entity_name (snd e) \<in> entity_names}"

definition hostname_ids :: "store \<Rightarrow> SecurityData \<Rightarrow> string set \<Rightarrow> string set" where
  "hostname_ids s g hostnames =
     (\<Union>r \<in> {r \<in> set (related_hosts g). rel_entity_name r \<in> hostnames}.
        entity_id ` set (weak_items s r))"

text \<open>The tags of an affected entity all have the key, and their string representations.\<close>

definition tags_ok :: "AffectedEntity \<Rightarrow> bool" where
  "tags_ok x \<longleftrightarrow> (\<forall>t \<in> set (tags x). map_of t ''stringRepresentation'' \<noteq> None)"

definition tag_strings :: "AffectedEntity \<Rightarrow> string list" where
  "tag_strings x = List.map_filter (\<lambda>t. map_of t ''stringRepresentation'') (tags x)"

text \<open>The seed ids of the removal by tags.\<close>

definition tag_ids :: "SecurityData \<Rightarrow> string set \<Rightarrow> string set" where
  "tag_ids g entity_tags =
     (\<lambda>(k, x). entity_id x) `
       {e \<in> set (affected_entities g). \<exists>t \<in> set (tag_strings (snd e)). t \<in> entity_tags}"

text \<open>The three removal operations as one type, to speak of any removal and of sequences.\<close>

datatype removal =
  ByName "string set" bool
| ByTags "string set" bool
| ByRelatedHostnames "string set" bool

fun apply_removal :: "store \<Rightarrow> SecurityData \<Rightarrow> removal \<Rightarrow> error + (store \<times> SecurityData)" where
  "apply_removal s g (ByName names b) = remove_affected_entities_by_name s g names b"
| "apply_removal s g (ByTags ts b) = remove_affected_entities_by_tags s g ts b"
| "apply_removal s g (ByRelatedHostnames names b) =
     remove_affected_entities_by_related_hostnames s g names b"

fun apply_removals ::
  "store \<Rightarrow> SecurityData \<Rightarrow> removal list \<Rightarrow> error + (store \<times> SecurityData)" where
  "apply_removals s g [] = Inr (s, g)"
| "apply_removals s g (op # ops) =
     (case apply_removal s g op of
        Inl e \<Rightarrow> Inl e
      | Inr (s', g') \<Rightarrow> apply_removals s' g' ops)"

fun reads_tags :: "removal \<Rightarrow> bool" where
  "reads_tags (ByTags ts b) = True"
| "reads_tags op = False"

fun by_related_hostnames :: "removal \<Rightarrow> bool" where
  "by_related_hostnames (ByRelatedHostnames names b) = True"
| "by_related_hostnames op = False"

text \<open>
  The identities of the objects a graph's dictionary holds, and its affected-entity ids.
\<close>

definition object_ids :: "SecurityData \<Rightarrow> addr set" where
  "object_ids g = (\<lambda>(k, x). ident x) ` set (affected_entities g)"

definition affected_ids :: "SecurityData \<Rightarrow> string set" where
  "affected_ids g = fst ` set (affected_entities g)"

text \<open>
  What \<open>deepcopy_dict\<close> computes when no object of the dictionary is in the memo yet: the
  entries with consecutive new identities, and the memo extended by the copies.
\<close>

fun renumber :: "addr \<Rightarrow> (string \<times> AffectedEntity) list \<Rightarrow> (string \<times> AffectedEntity) list" where
  "renumber n [] = []"
| "renumber n ((k, x) # d) = (k, x\<lparr>ident := n\<rparr>) # renumber (Suc n) d"

fun memo_of :: "addr \<Rightarrow> memo \<Rightarrow> (string \<times> AffectedEntity) list \<Rightarrow> memo" where
  "memo_of n m [] = m"
| "memo_of n m ((k, x) # d) = memo_of (Suc n) (m(ident x \<mapsto> x\<lparr>ident := n\<rparr>)) d"

text \<open>The store and the memo after cloning a well-formed graph.\<close>

definition clone_store :: "store \<Rightarrow> SecurityData \<Rightarrow> store" where
  "clone_store s g =
     s\<lparr>live := live s \<union> {next_ident s..<next_ident s + length (affected_entities g)},
       next_ident := next_ident s + length (affected_entities g)\<rparr>"

definition clone_memo :: "store \<Rightarrow> SecurityData \<Rightarrow> memo" where
  "clone_memo s g = memo_of (next_ident s) Map.empty (affected_entities g)"

text \<open>The seed ids of the partition strategy of each rule class.\<close>

fun seed_ids :: "rule_class \<Rightarrow> store \<Rightarrow> SecurityData \<Rightarrow> string set \<Rightarrow> string set" where
  "seed_ids HostnameRule s g M = hostname_ids s g M"
| "seed_ids AffectedEntityRule s g M = name_ids g M"
| "seed_ids AffectedEntityTagRule s g M = tag_ids g M"


definition rule_catch_all :: "number option \<Rightarrow> rule" where
  "rule_catch_all ms = \<lparr>cls = HostnameRule, value = [], operator = ''contains'',
     eval_function = contains, minimum_score = ms, stop_after_match = False,
     params = test_params\<rparr>"

text \<open>The attribute values of an entry of the dictionary, without the identity.\<close>

definition entry_values :: "string \<times> AffectedEntity \<Rightarrow> string \<times> string \<times> string \<times> tag list" where
  "entry_values e = (fst e, entity_id (snd e), entity_name (snd e), tags (snd e))"

text \<open>A sequence of removals of the three kinds, used on the clone of the test graph.\<close>

definition test_removals :: "removal list" where
  "test_removals =
     [ByRelatedHostnames {''host1''} True, ByTags {''my_tag''} False, ByName {''process3''} True]"







text \<open>
  What the claim about construction speaks of. The related hosts a raw record lists; the
  presence of the fields that construction reads, where \<open>host_lists\<close> says whether the
  affected-entity list of each related host is among them; and the presence in the lookup
  tables of the ids that construction looks up.
\<close>

definition hosts_of :: "raw_security_problem \<Rightarrow> raw_host list" where
  "hosts_of sp =
     (case relatedEntities sp of
        None \<Rightarrow> []
      | Some rl \<Rightarrow> (case hosts rl of None \<Rightarrow> [] | Some hs \<Rightarrow> hs))"

definition fields_present :: "bool \<Rightarrow> raw_security_problem \<Rightarrow> bool" where
  "fields_present host_lists sp \<longleftrightarrow>
     securityProblemId sp \<noteq> None \<and> displayId sp \<noteq> None \<and> sp_title sp \<noteq> None
     \<and> sp_url sp \<noteq> None
     \<and> (\<exists>ra. riskAssessment sp = Some ra \<and> riskScore ra \<noteq> None \<and> riskLevel ra \<noteq> None
            \<and> ra_exposure ra \<noteq> None \<and> dataAssets ra \<noteq> None)
     \<and> sp_description sp \<noteq> None \<and> sp_technology sp \<noteq> None
     \<and> (\<exists>cs. vulnerableComponents sp = Some cs \<and> (\<forall>c \<in> set cs. displayName c \<noteq> None))
     \<and> affectedEntities sp \<noteq> None
     \<and> (\<exists>rl. relatedEntities sp = Some rl \<and> hosts rl \<noteq> None)
     \<and> (\<forall>h \<in> set (hosts_of sp).
            host_id h \<noteq> None \<and> (host_lists \<longrightarrow> host_affectedEntities h \<noteq> None))"

definition required_fields_present :: "raw_security_problem \<Rightarrow> bool" where
  "required_fields_present sp \<longleftrightarrow> fields_present True sp"

definition referenced_ids_present ::
  "raw_security_problem \<Rightarrow> (string \<rightharpoonup> EntityDetails) \<Rightarrow> (string \<rightharpoonup> EntityDetails) \<Rightarrow> bool" where
  "referenced_ids_present sp all_affected_entities all_related_hosts \<longleftrightarrow>
     (\<forall>ids. affectedEntities sp = Some ids \<longrightarrow> (\<forall>i \<in> set ids. all_affected_entities i \<noteq> None))
     \<and> (\<forall>h \<in> set (hosts_of sp). \<forall>i. host_id h = Some i \<longrightarrow> all_related_hosts i \<noteq> None)"

section \<open>Properties\<close>

lemma truthy_simps [simp]:
  "truthy None = False" "truthy (Some m) = (num_value m \<noteq> 0)"
  by (simp_all add: truthy_def)

subsection \<open>Rule construction\<close>

text \<open>
  Claim C7. Constructing a rule of any of the three classes raises an error exactly when
  the value is absent (\<open>None\<close>; the empty string is accepted), the operator is empty or is
  not a key of the class's supported operators, the parameters are empty, or a minimum
  score is given that lies outside the closed range from 0 to 10. In every other case the
  rule is constructed.
\<close>

theorem rule_construction_errors:
  "(\<exists>e. Rule_init c v op ms sam ps = Inl e) \<longleftrightarrow>
     (v = None \<or> op = [] \<or> op \<notin> fst ` set (supported_operators c) \<or> ps = []
      \<or> (\<exists>m. ms = Some m \<and> (num_value m < 0 \<or> 10 < num_value m)))"
proof -
  have m: "(map_of (supported_operators c) op = None) = (op \<notin> fst ` set (supported_operators c))"
    by (simp add: map_of_eq_None_iff)
  show ?thesis
  proof (cases v)
    case None
    then show ?thesis by (simp add: Rule_init_def)
  next
    case (Some a)
    show ?thesis
    proof (cases ms)
      case None
      with Some m show ?thesis
        by (auto simp: Rule_init_def split: option.splits)
    next
      case (Some b)
      with \<open>v = Some a\<close> m show ?thesis
        by (auto simp: Rule_init_def split: option.splits)
    qed
  qed
qed

lemma supported_keys:
  "fst ` set (supported_operators c) =
     {''startswith'', ''startswithIgnoreCase'', ''equals'', ''equalsIgnoreCase'',
      ''contains'', ''containsIgnoreCase''}"
  by (cases c) (auto simp: SUPPORTED_OPERATORS_def HOSTNAME_SUPPORTED_OPERATORS_def)

theorem rule_construction_errors_witness:
  "(\<exists>e. Rule_init HostnameRule (Some ''random'') ''not_supported'' None False test_params = Inl e)
   \<and> \<not> (\<exists>e. Rule_init HostnameRule (Some []) ''contains'' (Some (PyInt 10)) False test_params = Inl e)
   \<and> (\<exists>e. Rule_init AffectedEntityRule (Some ''x'') ''equals'' (Some (PyFloat 11)) False test_params = Inl e)"
proof (intro conjI)
  show "\<exists>e. Rule_init HostnameRule (Some ''random'') ''not_supported'' None False test_params = Inl e"
    unfolding rule_construction_errors
    by (simp add: HOSTNAME_SUPPORTED_OPERATORS_def SUPPORTED_OPERATORS_def test_params_def)
  show "\<not> (\<exists>e. Rule_init HostnameRule (Some []) ''contains'' (Some (PyInt 10)) False test_params = Inl e)"
    unfolding rule_construction_errors
    by (simp add: HOSTNAME_SUPPORTED_OPERATORS_def SUPPORTED_OPERATORS_def test_params_def)
  show "\<exists>e. Rule_init AffectedEntityRule (Some ''x'') ''equals'' (Some (PyFloat 11)) False test_params = Inl e"
    unfolding rule_construction_errors by simp
qed

text \<open>
  \<open>Rule.create\<close> adds nothing to these conditions once the type is a supported one and
  the three required keys are present: it calls the constructor of the class.
\<close>

lemma Rule_create_init:
  assumes "rd_type rd = Some t" and "map_of supported_rule_types t = Some c"
    and "rd_value rd = Some v" and "rd_operator rd = Some op" and "rd_params rd = Some ps"
  shows "Rule_create rd =
           Rule_init c (Some v) op (rd_minimumScore rd)
             (case rd_stopAfterMatch rd of None \<Rightarrow> False | Some b \<Rightarrow> b) ps"
  using assms by (simp add: Rule_create_def)

text \<open>
  Claim C10. A minimum score of zero (the int \<open>0\<close>, the float \<open>0.0\<close> or the negative
  zero) acts as no minimum score: the constructor treats it as it treats \<open>None\<close> (same
  error, or the same rule up to the stored score), and \<open>match\<close> of a rule whose minimum
  score is zero returns, for every store and graph, what the rule without a minimum score
  returns, so it never stops at the threshold.
\<close>

theorem zero_minimum_score_is_no_minimum_score:
  "num_value z = 0 \<longrightarrow>
     map_sum id (\<lambda>r. r\<lparr>minimum_score := None\<rparr>) (Rule_init c v op (Some z) sam ps)
       = Rule_init c v op None sam ps
     \<and> (minimum_score r = Some z \<longrightarrow>
          match r s sd = match (r\<lparr>minimum_score := None\<rparr>) s sd)"
proof (intro impI conjI)
  assume z: "num_value z = 0"
  show "map_sum id (\<lambda>r. r\<lparr>minimum_score := None\<rparr>) (Rule_init c v op (Some z) sam ps)
     = Rule_init c v op None sam ps"
    using z by (simp add: Rule_init_def split: option.splits)
  assume "minimum_score r = Some z"
  with z show "match r s sd = match (r\<lparr>minimum_score := None\<rparr>) s sd"
    by (cases sd) (simp_all add: match_def Let_def cong: sum.case_cong if_cong)
qed

theorem zero_minimum_score_is_no_minimum_score_witness:
  "match \<lparr>cls = HostnameRule, value = ''host'', operator = ''contains'', eval_function = contains,
          minimum_score = Some (PyInt 0), stop_after_match = True, params = test_params\<rparr>
     test_store (Some test_graph)
   = match \<lparr>cls = HostnameRule, value = ''host'', operator = ''contains'', eval_function = contains,
          minimum_score = None, stop_after_match = True, params = test_params\<rparr>
     test_store (Some test_graph)
   \<and> map_sum id (\<lambda>r. r\<lparr>minimum_score := None\<rparr>)
        (Rule_init HostnameRule (Some ''host'') ''contains'' (Some (PyFloat 0)) True test_params)
     = Rule_init HostnameRule (Some ''host'') ''contains'' None True test_params"
proof -
  have i: "num_value (PyInt 0) = 0" and f: "num_value (PyFloat 0) = 0" by simp_all
  note a = zero_minimum_score_is_no_minimum_score
    [where z = "PyInt 0"
       and r = "\<lparr>cls = HostnameRule, value = ''host'', operator = ''contains'',
                 eval_function = contains, minimum_score = Some (PyInt 0),
                 stop_after_match = True, params = test_params\<rparr>"
       and s = test_store and sd = "Some test_graph", rule_format, OF i, THEN conjunct2]
  note b = zero_minimum_score_is_no_minimum_score
    [where z = "PyFloat 0" and c = HostnameRule and v = "Some ''host''" and op = "''contains''"
       and sam = True and ps = test_params, rule_format, OF f, THEN conjunct1]
  from a b show ?thesis by simp
qed

subsection \<open>The rule id\<close>




subsection \<open>Deleting keys\<close>

lemma del_item_closed:
  assumes "k \<in> fst ` set d" and "distinct (map fst d)"
    and "distinct (map (\<lambda>(k, x). ident x) d)"
  shows "del_item s d k =
           Inr (s\<lparr>live := live s - (\<lambda>(k, x). ident x) ` {e \<in> set d. fst e = k}\<rparr>,
                filter (\<lambda>e. fst e \<noteq> k) d)"
proof -
  from assms(1) obtain x where x: "(k, x) \<in> set d" by auto
  with assms(2) have m: "map_of d k = Some x" by simp
  have one: "{e \<in> set d. fst e = k} = {(k, x)}"
    using x assms(2) by (auto dest: eq_key_imp_eq_value)
  have f: "filter (\<lambda>(k', y). k' \<noteq> k) d = filter (\<lambda>e. fst e \<noteq> k) d"
    by (rule filter_cong) auto
  have "ident x \<notin> set (map (\<lambda>(k', y). ident y) (filter (\<lambda>e. fst e \<noteq> k) d))"
  proof
    assume "ident x \<in> set (map (\<lambda>(k', y). ident y) (filter (\<lambda>e. fst e \<noteq> k) d))"
    then obtain k' y where y: "(k', y) \<in> set d" "k' \<noteq> k" "ident y = ident x" by auto
    from assms(3) have "inj_on (\<lambda>(k, x). ident x) (set d)" by (simp add: distinct_map)
    from inj_onD [OF this, of "(k', y)" "(k, x)"] x y have "(k', y) = (k, x)" by simp
    with y show False by simp
  qed
  then show ?thesis
    by (simp add: del_item_def m f one Let_def)
qed

lemma del_items_closed:
  assumes "distinct ks" and "set ks \<subseteq> fst ` set d" and "distinct (map fst d)"
    and "distinct (map (\<lambda>(k, x). ident x) d)"
  shows "del_items s d ks =
           Inr (s\<lparr>live := live s - (\<lambda>(k, x). ident x) ` {e \<in> set d. fst e \<in> set ks}\<rparr>,
                filter (\<lambda>e. fst e \<notin> set ks) d)"
  using assms
proof (induction ks arbitrary: s d)
  case Nil
  then show ?case by simp
next
  case (Cons k ks)
  let ?d = "filter (\<lambda>e. fst e \<noteq> k) d"
  let ?s = "s\<lparr>live := live s - (\<lambda>(k, x). ident x) ` {e \<in> set d. fst e = k}\<rparr>"
  have step: "del_item s d k = Inr (?s, ?d)"
    using Cons.prems by (intro del_item_closed) auto
  have sub: "set ks \<subseteq> fst ` set ?d"
    using Cons.prems by force
  have d1: "distinct (map fst ?d)"
    using Cons.prems by (simp add: distinct_map_filter)
  have d2: "distinct (map (\<lambda>(k, x). ident x) ?d)"
    using Cons.prems by (simp add: distinct_map_filter)
  have ks: "distinct ks" using Cons.prems by simp
  have ih: "del_items ?s ?d ks =
      Inr (?s\<lparr>live := live ?s - (\<lambda>(k, x). ident x) ` {e \<in> set ?d. fst e \<in> set ks}\<rparr>,
           filter (\<lambda>e. fst e \<notin> set ks) ?d)"
    by (rule Cons.IH [OF ks sub d1 d2])
  have l: "live s - (\<lambda>(k, x). ident x) ` {e \<in> set d. fst e = k}
             - (\<lambda>(k, x). ident x) ` {e \<in> set ?d. fst e \<in> set ks}
           = live s - (\<lambda>(k, x). ident x) ` {e \<in> set d. fst e \<in> set (k # ks)}"
    by auto
  have f: "filter (\<lambda>e. fst e \<notin> set ks) ?d = filter (\<lambda>e. fst e \<notin> set (k # ks)) d"
    by (auto intro: filter_cong)
  have e: "?s\<lparr>live := live ?s - (\<lambda>(k, x). ident x) ` {e \<in> set ?d. fst e \<in> set ks}\<rparr>
           = s\<lparr>live := live s - (\<lambda>(k, x). ident x) ` {e \<in> set d. fst e = k}
                 - (\<lambda>(k, x). ident x) ` {e \<in> set ?d. fst e \<in> set ks}\<rparr>"
    by simp
  show ?case
    by (simp only: del_items.simps step ih sum.case prod.case e l f)
qed

lemma del_items_seed:
  assumes "distinct (map fst d)" and "distinct (map (\<lambda>(k, x). ident x) d)"
    and "distinct ks" and "set ks = (if b then ids \<inter> fst ` set d else fst ` set d - ids)"
  shows "del_items s d ks =
           Inr (s\<lparr>live := live s - (\<lambda>(k, x). ident x) ` {e \<in> set d. (fst e \<in> ids) = b}\<rparr>,
                filter (\<lambda>e. (fst e \<in> ids) \<noteq> b) d)"
proof -
  have sub: "set ks \<subseteq> fst ` set d" using assms(4) by (auto split: if_splits)
  have 1: "{e \<in> set d. fst e \<in> set ks} = {e \<in> set d. (fst e \<in> ids) = b}"
    using assms(4) by (auto split: if_splits)
  have 2: "filter (\<lambda>e. fst e \<notin> set ks) d = filter (\<lambda>e. (fst e \<in> ids) \<noteq> b) d"
    using assms(4) by (intro filter_cong) (auto split: if_splits)
  show ?thesis
    using del_items_closed [OF assms(3) sub assms(1) assms(2), of s] by (simp only: 1 2)
qed

lemma wf_graphD:
  assumes "wf_graph s g"
  shows "distinct (map fst (affected_entities g))"
    and "distinct (map (\<lambda>(k, x). ident x) (affected_entities g))"
    and "\<And>k x. (k, x) \<in> set (affected_entities g) \<Longrightarrow> entity_id x = k"
    and "\<And>k x. (k, x) \<in> set (affected_entities g) \<Longrightarrow> ident x \<in> live s"
    and "\<And>a. a \<in> live s \<Longrightarrow> a < next_ident s"
    and "\<And>r x. r \<in> set (related_hosts g) \<Longrightarrow> x \<in> set (rel_affected_entities r)
           \<Longrightarrow> ident x < next_ident s"
    and "\<And>r x. r \<in> set (related_hosts g) \<Longrightarrow> x \<in> set (weak_items s r)
           \<Longrightarrow> x \<in> snd ` set (affected_entities g)"
  using assms unfolding wf_graph_def weak_items_def by auto

lemma remove_by_name_closed:
  assumes "wf_graph s g"
  shows "remove_affected_entities_by_name s g S b = Inr (keep_ids (name_ids g S) b s g)"
proof -
  let ?d = "affected_entities g"
  let ?ids = "remdups (map (\<lambda>(k, x). entity_id x) (filter (\<lambda>(k, x). entity_name x \<in> S) ?d))"
  let ?ks = "if b then ?ids else filter (\<lambda>k. k \<notin> set ?ids) (remdups (map fst ?d))"
  have ids: "set ?ids = name_ids g S"
    by (auto simp: name_ids_def)
  have sub: "name_ids g S \<subseteq> fst ` set ?d"
    using wf_graphD(3) [OF assms] by (force simp: name_ids_def)
  have ks: "set ?ks = (if b then name_ids g S \<inter> fst ` set ?d else fst ` set ?d - name_ids g S)"
    using sub ids by (cases b) auto
  have dk: "distinct ?ks" by simp
  have "del_items s ?d ?ks =
      Inr (s\<lparr>live := live s - (\<lambda>(k, x). ident x) ` {e \<in> set ?d. (fst e \<in> name_ids g S) = b}\<rparr>,
           filter (\<lambda>e. (fst e \<in> name_ids g S) \<noteq> b) ?d)"
    by (rule del_items_seed [OF wf_graphD(1,2) [OF assms] dk ks])
  then show ?thesis
    by (simp add: remove_affected_entities_by_name_def keep_ids_def Let_def)
qed

lemma wf_keep_ids:
  assumes "wf_graph s g" and "keep_ids ids b s g = (s', g')"
  shows "wf_graph s' g'"
proof -
  let ?d = "affected_entities g"
  let ?P = "\<lambda>e. (fst e \<in> ids) \<noteq> b"
  have s': "s' = s\<lparr>live := live s - (\<lambda>(k, x). ident x) ` {e \<in> set ?d. \<not> ?P e}\<rparr>"
    and g': "g' = g\<lparr>affected_entities := filter ?P ?d\<rparr>"
    using assms(2) by (auto simp: keep_ids_def)
  note w = wf_graphD [OF assms(1)]
  have inj: "inj_on (\<lambda>(k, x). ident x) (set ?d)"
    using w(2) by (simp add: distinct_map)
  have kept: "ident x \<in> live s'" if "(k, x) \<in> set ?d" "?P (k, x)" for k x
  proof -
    have "ident x \<notin> (\<lambda>(k, x). ident x) ` {e \<in> set ?d. \<not> ?P e}"
    proof
      assume "ident x \<in> (\<lambda>(k, x). ident x) ` {e \<in> set ?d. \<not> ?P e}"
      then obtain k' y where y: "(k', y) \<in> set ?d" "\<not> ?P (k', y)" "ident y = ident x" by auto
      from inj_onD [OF inj, of "(k', y)" "(k, x)"] y that have "(k', y) = (k, x)" by simp
      with y that show False by simp
    qed
    with w(4) [OF that(1)] show ?thesis by (simp add: s')
  qed
  have gone: "ident x \<notin> live s'" if "(k, x) \<in> set ?d" "\<not> ?P (k, x)" for k x
    using that by (force simp: s')
  have 1: "distinct (map fst (affected_entities g'))"
    using w(1) by (simp add: g' distinct_map_filter)
  have 2: "distinct (map (\<lambda>(k, x). ident x) (affected_entities g'))"
    using w(2) by (simp add: g' distinct_map_filter)
  have 3: "\<forall>(k, x) \<in> set (affected_entities g'). entity_id x = k \<and> ident x \<in> live s'"
    using w(3) kept by (auto simp: g')
  have 4: "\<forall>a \<in> live s'. a < next_ident s'"
    using w(5) by (auto simp: s')
  have 5: "\<forall>r \<in> set (related_hosts g'). \<forall>x \<in> set (rel_affected_entities r).
        ident x < next_ident s' \<and>
        (ident x \<in> live s' \<longrightarrow> x \<in> snd ` set (affected_entities g'))"
  proof (intro ballI conjI impI)
    fix r x assume r: "r \<in> set (related_hosts g')" and x: "x \<in> set (rel_affected_entities r)"
    from r have r': "r \<in> set (related_hosts g)" by (simp add: g')
    show "ident x < next_ident s'" using w(6) [OF r' x] by (simp add: s')
    assume l: "ident x \<in> live s'"
    then have "ident x \<in> live s" by (simp add: s')
    with x have "x \<in> set (weak_items s r)" by (simp add: weak_items_def)
    from w(7) [OF r' this] obtain k where k: "(k, x) \<in> set ?d" by force
    with gone l have "?P (k, x)" by blast
    with k show "x \<in> snd ` set (affected_entities g')" by (force simp: g')
  qed
  from 1 2 3 4 5 show ?thesis unfolding wf_graph_def by blast
qed

lemma wf_drop_hosts:
  assumes "wf_graph s g" and "set hs \<subseteq> set (related_hosts g)"
  shows "wf_graph s (g\<lparr>related_hosts := hs\<rparr>)"
  using assms unfolding wf_graph_def by auto

lemma wf_remove_by_name:
  assumes "wf_graph s g"
  shows "\<exists>s' g'. remove_affected_entities_by_name s g S b = Inr (s', g') \<and> wf_graph s' g'"
proof -
  obtain s' g' where k: "keep_ids (name_ids g S) b s g = (s', g')" by (cases "keep_ids (name_ids g S) b s g")
  with remove_by_name_closed [OF assms, of S b] wf_keep_ids [OF assms k] show ?thesis by simp
qed

lemma name_ids_after_removal:
  assumes "wf_graph s g" and "keep_ids (name_ids g S) True s g = (s', g')"
  shows "name_ids g' S = {}"
proof -
  have g': "affected_entities g' = filter (\<lambda>e. fst e \<notin> name_ids g S) (affected_entities g)"
    using assms(2) by (auto simp: keep_ids_def)
  show ?thesis
  proof (rule ccontr)
    assume "name_ids g' S \<noteq> {}"
    then obtain k x where kx: "(k, x) \<in> set (affected_entities g')" "entity_name x \<in> S"
      by (auto simp: name_ids_def)
    then have in_g: "(k, x) \<in> set (affected_entities g)" and nk: "k \<notin> name_ids g S"
      by (auto simp: g')
    from wf_graphD(3) [OF assms(1) in_g] in_g kx(2) have "k \<in> name_ids g S"
      by (force simp: name_ids_def)
    with nk show False by simp
  qed
qed

text \<open>
  Claim C5. On a well-formed graph, removing the affected entities whose name is in \<open>S\<close>
  and then, from the result, removing those whose name is not in \<open>S\<close> succeeds twice and
  leaves the affected-entity mapping empty. This holds for every \<open>S\<close>, in particular for a
  non-empty one that meets the names of the graph.
\<close>

theorem removal_complement_law:
  assumes "wf_graph s g"
  shows "\<exists>s1 g1 s2 g2.
           remove_affected_entities_by_name s g S True = Inr (s1, g1)
         \<and> remove_affected_entities_by_name s1 g1 S False = Inr (s2, g2)
         \<and> affected_entities g2 = []"
proof -
  obtain s1 g1 where k1: "keep_ids (name_ids g S) True s g = (s1, g1)"
    by (cases "keep_ids (name_ids g S) True s g")
  have r1: "remove_affected_entities_by_name s g S True = Inr (s1, g1)"
    using remove_by_name_closed [OF assms, of S True] k1 by simp
  have w1: "wf_graph s1 g1" by (rule wf_keep_ids [OF assms k1])
  have e: "name_ids g1 S = {}" by (rule name_ids_after_removal [OF assms k1])
  obtain s2 g2 where k2: "keep_ids (name_ids g1 S) False s1 g1 = (s2, g2)"
    by (cases "keep_ids (name_ids g1 S) False s1 g1")
  have r2: "remove_affected_entities_by_name s1 g1 S False = Inr (s2, g2)"
    using remove_by_name_closed [OF w1, of S False] k2 by simp
  have "affected_entities g2 = []"
    using k2 by (auto simp: keep_ids_def e)
  with r1 r2 show ?thesis by blast
qed

lemma wf_test_graph: "wf_graph test_store test_graph"
  by (simp add: wf_graph_def test_store_def test_graph_def host1_def host2_def
        process1_def process2_def process3_def)

theorem removal_complement_law_witness:
  "\<exists>s1 g1 s2 g2.
           remove_affected_entities_by_name test_store test_graph {''process1''} True = Inr (s1, g1)
         \<and> remove_affected_entities_by_name s1 g1 {''process1''} False = Inr (s2, g2)
         \<and> affected_entities g2 = []"
  using removal_complement_law [OF wf_test_graph] .

subsection \<open>Removal by tags and by related hostnames\<close>

lemma string_representations_ok:
  "\<forall>t \<in> set ts. map_of t ''stringRepresentation'' \<noteq> None \<Longrightarrow>
     string_representations ts = Inr (List.map_filter (\<lambda>t. map_of t ''stringRepresentation'') ts)"
  by (induction ts) auto

lemma string_representations_fail:
  "\<exists>t \<in> set ts. map_of t ''stringRepresentation'' = None \<Longrightarrow>
     string_representations ts = Inl KeyError"
proof (induction ts)
  case Nil
  then show ?case by simp
next
  case (Cons t ts)
  show ?case
  proof (cases "map_of t ''stringRepresentation''")
    case None
    then show ?thesis by simp
  next
    case (Some v)
    with Cons.prems have "\<exists>t \<in> set ts. map_of t ''stringRepresentation'' = None" by auto
    with Cons.IH Some show ?thesis by simp
  qed
qed

lemma has_any_tag_ok:
  "tags_ok x \<Longrightarrow> has_any_tag S x = Inr (\<exists>t \<in> set (tag_strings x). t \<in> S)"
  by (simp add: has_any_tag_def tags_ok_def tag_strings_def string_representations_ok)

lemma has_any_tag_fail: "\<not> tags_ok x \<Longrightarrow> has_any_tag S x = Inl KeyError"
  by (simp add: has_any_tag_def tags_ok_def string_representations_fail)

lemma tagged_entity_ids_ok:
  "\<forall>x \<in> set xs. tags_ok x \<Longrightarrow>
     tagged_entity_ids S xs =
       Inr (map entity_id (filter (\<lambda>x. \<exists>t \<in> set (tag_strings x). t \<in> S) xs))"
  by (induction xs) (simp_all add: has_any_tag_ok)

lemma tagged_entity_ids_fail:
  "\<exists>x \<in> set xs. \<not> tags_ok x \<Longrightarrow> tagged_entity_ids S xs = Inl KeyError"
proof (induction xs)
  case Nil
  then show ?case by simp
next
  case (Cons x xs)
  show ?case
  proof (cases "tags_ok x")
    case True
    with Cons show ?thesis by (simp add: has_any_tag_ok)
  next
    case False
    then show ?thesis by (simp add: has_any_tag_fail)
  qed
qed

lemma remove_by_tags_closed:
  assumes "wf_graph s g" and "\<forall>(k, x) \<in> set (affected_entities g). tags_ok x"
  shows "remove_affected_entities_by_tags s g S b = Inr (keep_ids (tag_ids g S) b s g)"
proof -
  let ?d = "affected_entities g"
  let ?l = "map entity_id (filter (\<lambda>x. \<exists>t \<in> set (tag_strings x). t \<in> S) (map snd ?d))"
  let ?ids = "remdups ?l"
  let ?ks = "if b then ?ids else filter (\<lambda>k. k \<notin> set ?ids) (remdups (map fst ?d))"
  have t: "tagged_entity_ids S (map snd ?d) = Inr ?l"
    using assms(2) by (intro tagged_entity_ids_ok) auto
  have ids: "set ?ids = tag_ids g S"
    unfolding tag_ids_def by (auto; force)
  have sub: "tag_ids g S \<subseteq> fst ` set ?d"
    using wf_graphD(3) [OF assms(1)] by (force simp: tag_ids_def)
  have ks: "set ?ks = (if b then tag_ids g S \<inter> fst ` set ?d else fst ` set ?d - tag_ids g S)"
    using sub ids by (cases b) auto
  have dk: "distinct ?ks" by simp
  have "del_items s ?d ?ks =
      Inr (s\<lparr>live := live s - (\<lambda>(k, x). ident x) ` {e \<in> set ?d. (fst e \<in> tag_ids g S) = b}\<rparr>,
           filter (\<lambda>e. (fst e \<in> tag_ids g S) \<noteq> b) ?d)"
    by (rule del_items_seed [OF wf_graphD(1,2) [OF assms(1)] dk ks])
  then show ?thesis
    by (simp add: remove_affected_entities_by_tags_def t keep_ids_def Let_def)
qed

lemma remove_by_tags_fail:
  assumes "\<not> (\<forall>(k, x) \<in> set (affected_entities g). tags_ok x)"
  shows "remove_affected_entities_by_tags s g S b = Inl KeyError"
proof -
  have "tagged_entity_ids S (map snd (affected_entities g)) = Inl KeyError"
    using assms by (intro tagged_entity_ids_fail) force
  then show ?thesis by (simp add: remove_affected_entities_by_tags_def)
qed

lemma remove_by_hostnames_closed:
  assumes "wf_graph s g"
  shows "remove_affected_entities_by_related_hostnames s g S b =
           Inr (fst (keep_ids (hostname_ids s g S) b s g),
                (snd (keep_ids (hostname_ids s g S) b s g))
                  \<lparr>related_hosts :=
                     filter (\<lambda>x. weak_items (fst (keep_ids (hostname_ids s g S) b s g)) x \<noteq> [])
                       (related_hosts g)\<rparr>)"
proof -
  let ?d = "affected_entities g"
  let ?ids = "remdups (concat (map (\<lambda>related_host. map entity_id (weak_items s related_host))
              (filter (\<lambda>related_host. rel_entity_name related_host \<in> S) (related_hosts g))))"
  let ?ks = "if b then ?ids else filter (\<lambda>k. k \<notin> set ?ids) (remdups (map fst ?d))"
  let ?H = "hostname_ids s g S"
  have ids: "set ?ids = ?H"
    by (auto simp: hostname_ids_def)
  have sub: "?H \<subseteq> fst ` set ?d"
  proof
    fix k assume "k \<in> ?H"
    then obtain r x where r: "r \<in> set (related_hosts g)" and x: "x \<in> set (weak_items s r)"
      and k: "k = entity_id x" by (auto simp: hostname_ids_def)
    from wf_graphD(7) [OF assms r x] obtain k' where k': "(k', x) \<in> set ?d" by force
    with wf_graphD(3) [OF assms k'] k show "k \<in> fst ` set ?d" by force
  qed
  have ks: "set ?ks = (if b then ?H \<inter> fst ` set ?d else fst ` set ?d - ?H)"
    using sub ids by (cases b) auto
  have dk: "distinct ?ks" by simp
  have "del_items s ?d ?ks =
      Inr (s\<lparr>live := live s - (\<lambda>(k, x). ident x) ` {e \<in> set ?d. (fst e \<in> ?H) = b}\<rparr>,
           filter (\<lambda>e. (fst e \<in> ?H) \<noteq> b) ?d)"
    by (rule del_items_seed [OF wf_graphD(1,2) [OF assms] dk ks])
  then show ?thesis
    by (simp add: remove_affected_entities_by_related_hostnames_def keep_ids_def Let_def)
qed

lemma wf_apply_removal:
  assumes "wf_graph s g" and "apply_removal s g op = Inr (s', g')"
  shows "wf_graph s' g'"
proof (cases op)
  case (ByName S b)
  with assms(2) remove_by_name_closed [OF assms(1), of S b]
  have "keep_ids (name_ids g S) b s g = (s', g')" by simp
  then show ?thesis by (rule wf_keep_ids [OF assms(1)])
next
  case (ByTags S b)
  show ?thesis
  proof (cases "\<forall>(k, x) \<in> set (affected_entities g). tags_ok x")
    case True
    with ByTags assms(2) remove_by_tags_closed [OF assms(1) True, of S b]
    have "keep_ids (tag_ids g S) b s g = (s', g')" by simp
    then show ?thesis by (rule wf_keep_ids [OF assms(1)])
  next
    case False
    with ByTags assms(2) remove_by_tags_fail [OF False, of s S b] show ?thesis by simp
  qed
next
  case (ByRelatedHostnames S b)
  obtain s1 g1 where k: "keep_ids (hostname_ids s g S) b s g = (s1, g1)"
    by (cases "keep_ids (hostname_ids s g S) b s g")
  have w1: "wf_graph s1 g1" by (rule wf_keep_ids [OF assms(1) k])
  have rh: "related_hosts g1 = related_hosts g" using k by (auto simp: keep_ids_def)
  from ByRelatedHostnames assms(2) remove_by_hostnames_closed [OF assms(1), of S b] k
  have e: "s' = s1" "g' = g1\<lparr>related_hosts := filter (\<lambda>x. weak_items s1 x \<noteq> []) (related_hosts g)\<rparr>"
    by auto
  show ?thesis unfolding e
    by (rule wf_drop_hosts [OF w1]) (simp add: rh)
qed

lemma apply_removal_returns:
  assumes "wf_graph s g" and "reads_tags op \<longrightarrow> (\<forall>(k, x) \<in> set (affected_entities g). tags_ok x)"
  shows "\<exists>s' g'. apply_removal s g op = Inr (s', g')"
proof (cases op)
  case (ByName S b)
  then show ?thesis using remove_by_name_closed [OF assms(1), of S b]
    by (cases "keep_ids (name_ids g S) b s g") simp
next
  case (ByTags S b)
  with assms(2) have "\<forall>(k, x) \<in> set (affected_entities g). tags_ok x" by simp
  from remove_by_tags_closed [OF assms(1) this, of S b] ByTags show ?thesis
    by (cases "keep_ids (tag_ids g S) b s g") simp
next
  case (ByRelatedHostnames S b)
  then show ?thesis using remove_by_hostnames_closed [OF assms(1), of S b] by simp
qed

lemma wf_relation_subset:
  assumes "wf_graph s g" and "r \<in> set (related_hosts g)"
  shows "entity_id ` set (weak_items s r) \<subseteq> fst ` set (affected_entities g)"
proof
  fix k assume "k \<in> entity_id ` set (weak_items s r)"
  then obtain x where x: "x \<in> set (weak_items s r)" and k: "k = entity_id x" by auto
  from wf_graphD(7) [OF assms x] obtain k' where k': "(k', x) \<in> set (affected_entities g)" by force
  with wf_graphD(3) [OF assms(1) k'] k show "k \<in> fst ` set (affected_entities g)" by force
qed

lemma by_hostnames_no_empty:
  assumes "wf_graph s g"
    and "remove_affected_entities_by_related_hostnames s g S b = Inr (s', g')"
    and "r \<in> set (related_hosts g')"
  shows "weak_items s' r \<noteq> []"
  using assms(2,3) unfolding remove_by_hostnames_closed [OF assms(1)] by auto

text \<open>
  Claim C2, as amended. On a well-formed graph each removal operation returns (the
  removal by tags provided every tag has its string representation), and in what it
  returns the relation set of every remaining related entity is a subset of the remaining
  affected-entity ids. After the removal by related hostnames no related entity with an
  empty relation set remains in the sequence.
\<close>

theorem cascade_consistency:
  assumes "wf_graph s g"
  shows "((reads_tags op \<longrightarrow> (\<forall>(k, x) \<in> set (affected_entities g). tags_ok x))
            \<longrightarrow> (\<exists>s' g'. apply_removal s g op = Inr (s', g')))
       \<and> (\<forall>s' g'. apply_removal s g op = Inr (s', g') \<longrightarrow>
            (\<forall>r \<in> set (related_hosts g').
               entity_id ` set (weak_items s' r) \<subseteq> fst ` set (affected_entities g'))
          \<and> (by_related_hostnames op \<longrightarrow> (\<forall>r \<in> set (related_hosts g'). weak_items s' r \<noteq> [])))"
proof (intro conjI impI allI ballI)
  assume "reads_tags op \<longrightarrow> (\<forall>(k, x) \<in> set (affected_entities g). tags_ok x)"
  then show "\<exists>s' g'. apply_removal s g op = Inr (s', g')"
    by (rule apply_removal_returns [OF assms])
next
  fix s' g' r
  assume a: "apply_removal s g op = Inr (s', g')" and r: "r \<in> set (related_hosts g')"
  have "wf_graph s' g'" by (rule wf_apply_removal [OF assms a])
  then show "entity_id ` set (weak_items s' r) \<subseteq> fst ` set (affected_entities g')"
    using r by (rule wf_relation_subset)
next
  fix s' g' r
  assume a: "apply_removal s g op = Inr (s', g')" and h: "by_related_hostnames op"
    and r: "r \<in> set (related_hosts g')"
  from h obtain S b where "op = ByRelatedHostnames S b" by (cases op) auto
  with a have "remove_affected_entities_by_related_hostnames s g S b = Inr (s', g')" by simp
  from by_hostnames_no_empty [OF assms this r] show "weak_items s' r \<noteq> []" .
qed

theorem cascade_consistency_witness:
  "\<exists>s' g'. apply_removal test_store test_graph (ByRelatedHostnames {''host1''} True) = Inr (s', g')
      \<and> (\<forall>r \<in> set (related_hosts g').
            entity_id ` set (weak_items s' r) \<subseteq> fst ` set (affected_entities g')
          \<and> weak_items s' r \<noteq> [])"
proof -
  note c = cascade_consistency [OF wf_test_graph, of "ByRelatedHostnames {''host1''} True"]
  from c [THEN conjunct1] obtain s' g'
    where a: "apply_removal test_store test_graph (ByRelatedHostnames {''host1''} True) = Inr (s', g')"
    by auto
  from c [THEN conjunct2, rule_format, OF a] a show ?thesis by auto
qed

theorem cascade_consistency_counterexample:
  "remove_affected_entities_by_name test_store test_graph {''process3''} True
     = Inr (test_store\<lparr>live := {0, 1}\<rparr>,
            test_graph\<lparr>affected_entities := [(''P1'', process1), (''P2'', process2)]\<rparr>)
   \<and> host2 \<in> set (related_hosts
        (test_graph\<lparr>affected_entities := [(''P1'', process1), (''P2'', process2)]\<rparr>))
   \<and> weak_items (test_store\<lparr>live := {0, 1}\<rparr>) host2 = []"
  by (auto simp add: remove_affected_entities_by_name_def del_item_def Let_def weak_items_def
        test_graph_def test_store_def host1_def host2_def process1_def process2_def process3_def)

subsection \<open>Cloning\<close>

lemma deepcopy_dict_closed:
  assumes "distinct (map (\<lambda>(k, x). ident x) d)" and "\<forall>(k, x) \<in> set d. m (ident x) = None"
  shows "deepcopy_dict s m d =
           (s\<lparr>live := live s \<union> {next_ident s..<next_ident s + length d},
              next_ident := next_ident s + length d\<rparr>,
            memo_of (next_ident s) m d, renumber (next_ident s) d)"
  using assms
proof (induction d arbitrary: s m)
  case Nil
  then show ?case by simp
next
  case (Cons e d)
  obtain k x where e: "e = (k, x)" by (cases e)
  let ?n = "next_ident s"
  let ?y = "x\<lparr>ident := ?n\<rparr>"
  let ?s1 = "s\<lparr>live := insert ?n (live s), next_ident := Suc ?n\<rparr>"
  let ?m1 = "m(ident x \<mapsto> ?y)"
  have miss: "m (ident x) = None" using Cons.prems(2) e by simp
  have ent: "deepcopy_entity s m x = (?s1, ?m1, ?y)"
    by (simp add: deepcopy_entity_def miss Let_def)
  have d1: "distinct (map (\<lambda>(k, x). ident x) d)" using Cons.prems(1) by simp
  have m1: "\<forall>(k', x') \<in> set d. ?m1 (ident x') = None"
    using Cons.prems e by (auto simp: image_iff)
  have ih: "deepcopy_dict ?s1 ?m1 d =
           (?s1\<lparr>live := live ?s1 \<union> {next_ident ?s1..<next_ident ?s1 + length d},
                next_ident := next_ident ?s1 + length d\<rparr>,
            memo_of (next_ident ?s1) ?m1 d, renumber (next_ident ?s1) d)"
    by (rule Cons.IH [OF d1 m1])
  have l: "insert ?n (live s \<union> {Suc ?n..<Suc (?n + length d)})
             = live s \<union> {?n..<Suc (?n + length d)}"
    by auto
  show ?case
    by (simp add: e ent ih l)
qed

lemma renumber_keys [simp]: "map fst (renumber n d) = map fst d"
  by (induction n d rule: renumber.induct) simp_all

lemma renumber_length [simp]: "length (renumber n d) = length d"
  by (induction n d rule: renumber.induct) simp_all

lemma renumber_idents: "map (\<lambda>(k, x). ident x) (renumber n d) = [n..<n + length d]"
  by (induction n d rule: renumber.induct) (simp_all add: upt_rec)

lemma renumber_mem:
  "(k, y) \<in> set (renumber n d) \<Longrightarrow>
     \<exists>x. (k, x) \<in> set d \<and> y = x\<lparr>ident := ident y\<rparr> \<and> n \<le> ident y \<and> ident y < n + length d"
proof (induction n d rule: renumber.induct)
  case (1 n)
  then show ?case by simp
next
  case (2 n k' x d)
  from "2.prems" have "(k, y) = (k', x\<lparr>ident := n\<rparr>) \<or> (k, y) \<in> set (renumber (Suc n) d)"
    by simp
  then show ?case
  proof
    assume "(k, y) = (k', x\<lparr>ident := n\<rparr>)"
    then show ?thesis by auto
  next
    assume "(k, y) \<in> set (renumber (Suc n) d)"
    from "2.IH" [OF this] show ?thesis by auto
  qed
qed

lemma memo_of_other:
  "a \<notin> (\<lambda>(k, x). ident x) ` set d \<Longrightarrow> memo_of n m d a = m a"
  by (induction n m d rule: memo_of.induct) auto

lemma memo_of_mem:
  assumes "distinct (map (\<lambda>(k, x). ident x) d)" and "(k, x) \<in> set d"
  shows "\<exists>y. memo_of n m d (ident x) = Some y \<and> (k, y) \<in> set (renumber n d)
           \<and> y = x\<lparr>ident := ident y\<rparr>"
  using assms
proof (induction n m d rule: memo_of.induct)
  case (1 n m)
  then show ?case by simp
next
  case (2 n m k' x' d)
  from "2.prems"(2) have "(k, x) = (k', x') \<or> (k, x) \<in> set d" by simp
  then show ?case
  proof
    assume eq: "(k, x) = (k', x')"
    with "2.prems"(1) have "ident x \<notin> (\<lambda>(k, x). ident x) ` set d" by auto
    from memo_of_other [OF this, of "Suc n" "m(ident x' \<mapsto> x'\<lparr>ident := n\<rparr>)"] eq
    show ?thesis by auto
  next
    assume "(k, x) \<in> set d"
    moreover from "2.prems"(1) have "distinct (map (\<lambda>(k, x). ident x) d)" by simp
    ultimately obtain y where "memo_of (Suc n) (m(ident x' \<mapsto> x'\<lparr>ident := n\<rparr>)) d (ident x) = Some y"
      "(k, y) \<in> set (renumber (Suc n) d)" "y = x\<lparr>ident := ident y\<rparr>"
      using "2.IH" by blast
    then show ?thesis by (auto simp del: fun_upd_apply)
  qed
qed

lemma deepcopy_closed:
  assumes "wf_graph s g"
  shows "deepcopy s g =
           (clone_store s g,
            g\<lparr>affected_entities := renumber (next_ident s) (affected_entities g),
              related_hosts :=
                map (deepcopy_related (clone_store s g) (clone_memo s g)) (related_hosts g)\<rparr>)"
  using deepcopy_dict_closed [OF wf_graphD(2) [OF assms], of Map.empty s]
  by (simp add: deepcopy_def clone_store_def clone_memo_def)

lemma weak_items_clone_store:
  assumes "wf_graph s g" and "r \<in> set (related_hosts g)"
  shows "weak_items (clone_store s g) r = weak_items s r"
proof -
  have "ident x \<in> live (clone_store s g) \<longleftrightarrow> ident x \<in> live s"
    if "x \<in> set (rel_affected_entities r)" for x
    using wf_graphD(6) [OF assms that] by (auto simp: clone_store_def)
  then show ?thesis unfolding weak_items_def by (intro filter_cong) auto
qed

lemma map_filter_all2:
  "\<forall>x \<in> set xs. \<exists>y. f x = Some y \<and> P x y \<Longrightarrow> list_all2 P xs (List.map_filter f xs)"
  by (induction xs) auto

lemma copied_related:
  assumes "wf_graph s g" and "r \<in> set (related_hosts g)"
  shows "list_all2
           (\<lambda>x y. y = x\<lparr>ident := ident y\<rparr>
                 \<and> y \<in> snd ` set (renumber (next_ident s) (affected_entities g)))
           (weak_items s r)
           (rel_affected_entities (deepcopy_related (clone_store s g) (clone_memo s g) r))"
proof -
  have "\<exists>y. clone_memo s g (ident x) = Some y
          \<and> (y = x\<lparr>ident := ident y\<rparr>
             \<and> y \<in> snd ` set (renumber (next_ident s) (affected_entities g)))"
    if "x \<in> set (weak_items s r)" for x
  proof -
    from wf_graphD(7) [OF assms that] obtain k where "(k, x) \<in> set (affected_entities g)"
      by force
    from memo_of_mem [OF wf_graphD(2) [OF assms(1)] this, of "next_ident s" Map.empty]
    show ?thesis unfolding clone_memo_def by force
  qed
  then have "list_all2
           (\<lambda>x y. y = x\<lparr>ident := ident y\<rparr>
                 \<and> y \<in> snd ` set (renumber (next_ident s) (affected_entities g)))
           (weak_items s r)
           (List.map_filter (\<lambda>x. clone_memo s g (ident x)) (weak_items s r))"
    by (intro map_filter_all2) blast
  then show ?thesis
    by (simp add: deepcopy_related_def weak_items_clone_store [OF assms])
qed

lemma clone_object_ids:
  "object_ids (g\<lparr>affected_entities := renumber n (affected_entities g), related_hosts := hs\<rparr>)
     = {n..<n + length (affected_entities g)}"
proof -
  have "(\<lambda>(k, x). ident x) ` set (renumber n (affected_entities g))
          = set (map (\<lambda>(k, x). ident x) (renumber n (affected_entities g)))"
    by simp
  also have "\<dots> = {n..<n + length (affected_entities g)}"
    by (simp only: renumber_idents set_upt)
  finally show ?thesis by (simp add: object_ids_def)
qed

lemma wf_deepcopy:
  assumes "wf_graph s g" and "deepcopy s g = (s1, c)"
  shows "wf_graph s1 c" and "wf_graph s1 g"
    and "object_ids c \<inter> object_ids g = {}"
proof -
  let ?n = "next_ident s"
  let ?d = "affected_entities g"
  note w = wf_graphD [OF assms(1)]
  from assms(2) deepcopy_closed [OF assms(1)]
  have s1: "s1 = clone_store s g"
    and c: "c = g\<lparr>affected_entities := renumber ?n ?d,
                   related_hosts := map (deepcopy_related s1 (clone_memo s g)) (related_hosts g)\<rparr>"
    by auto
  have live1: "live s1 = live s \<union> {?n..<?n + length ?d}" and next1: "next_ident s1 = ?n + length ?d"
    by (simp_all add: s1 clone_store_def)
  have dc: "affected_entities c = renumber ?n ?d" by (subst c) simp
  have oc: "object_ids c = {?n..<?n + length ?d}"
    by (subst c) (rule clone_object_ids)
  have og: "\<And>a. a \<in> object_ids g \<Longrightarrow> a < ?n"
    using w(4,5) by (force simp: object_ids_def)
  show "object_ids c \<inter> object_ids g = {}"
    using og oc by fastforce
  have 1: "distinct (map fst (affected_entities c))" using w(1) by (simp add: dc)
  have 2: "distinct (map (\<lambda>(k, x). ident x) (affected_entities c))"
    by (simp only: dc renumber_idents distinct_upt)
  have 3: "\<forall>(k, y) \<in> set (affected_entities c). entity_id y = k \<and> ident y \<in> live s1"
  proof (clarify, intro conjI)
    fix k y assume "(k, y) \<in> set (affected_entities c)"
    then have "(k, y) \<in> set (renumber ?n ?d)" by (simp add: dc)
    from renumber_mem [OF this] obtain x where x: "(k, x) \<in> set ?d" "y = x\<lparr>ident := ident y\<rparr>"
      "?n \<le> ident y" "ident y < ?n + length ?d" by blast
    from x(2) have "entity_id y = entity_id x" by (metis AffectedEntity.select_convs(2) AffectedEntity.surjective AffectedEntity.update_convs(1))
    with w(3) [OF x(1)] show "entity_id y = k" by simp
    from x(3,4) show "ident y \<in> live s1" by (simp add: live1)
  qed
  have 4: "\<forall>a \<in> live s1. a < next_ident s1"
    using w(5) by (auto simp: live1 next1 dest!: w(5))
  have 5: "\<forall>r \<in> set (related_hosts c). \<forall>y \<in> set (rel_affected_entities r).
        ident y < next_ident s1 \<and>
        (ident y \<in> live s1 \<longrightarrow> y \<in> snd ` set (affected_entities c))"
  proof (intro ballI)
    fix r' y assume r': "r' \<in> set (related_hosts c)" and y: "y \<in> set (rel_affected_entities r')"
    from r' obtain r where r: "r \<in> set (related_hosts g)"
      and r'_def: "r' = deepcopy_related s1 (clone_memo s g) r"
      by (subst (asm) c) auto
    from copied_related [OF assms(1) r] y
    have in_c: "y \<in> snd ` set (renumber ?n ?d)"
      unfolding r'_def s1 by (auto simp: list_all2_conv_all_nth in_set_conv_nth)
    then obtain k where "(k, y) \<in> set (renumber ?n ?d)" by force
    from renumber_mem [OF this] have "ident y < ?n + length ?d" by blast
    with in_c show "ident y < next_ident s1 \<and>
        (ident y \<in> live s1 \<longrightarrow> y \<in> snd ` set (affected_entities c))"
      by (simp add: next1 dc)
  qed
  from 1 2 3 4 5 show "wf_graph s1 c" unfolding wf_graph_def by blast
  have g3: "\<forall>(k, x) \<in> set ?d. entity_id x = k \<and> ident x \<in> live s1"
    using w(3,4) by (auto simp: live1)
  have g5: "\<forall>r \<in> set (related_hosts g). \<forall>x \<in> set (rel_affected_entities r).
        ident x < next_ident s1 \<and>
        (ident x \<in> live s1 \<longrightarrow> x \<in> snd ` set ?d)"
  proof (intro ballI conjI impI)
    fix r x assume r: "r \<in> set (related_hosts g)" and x: "x \<in> set (rel_affected_entities r)"
    from w(6) [OF r x] show "ident x < next_ident s1" by (simp add: next1)
    assume "ident x \<in> live s1"
    with w(6) [OF r x] have "ident x \<in> live s" by (simp add: live1)
    with x have "x \<in> set (weak_items s r)" by (simp add: weak_items_def)
    from w(7) [OF r this] show "x \<in> snd ` set ?d" .
  qed
  from w(1,2) g3 4 g5 show "wf_graph s1 g" unfolding wf_graph_def by blast
qed

subsection \<open>Removals leave other graphs alone\<close>

lemma frame_keep_ids:
  assumes "wf_graph s h" and "keep_ids ids b s g = (s', g')"
    and "object_ids g \<inter> object_ids h = {}"
  shows "wf_graph s' h" and "\<forall>r \<in> set (related_hosts h). weak_items s' r = weak_items s r"
proof -
  note w = wf_graphD [OF assms(1)]
  obtain F where s': "s' = s\<lparr>live := live s - F\<rparr>" and F: "F \<subseteq> object_ids g"
    using assms(2) by (auto simp: keep_ids_def object_ids_def)
  have keep: "ident x \<in> live s'" if "(k, x) \<in> set (affected_entities h)" for k x
  proof -
    from that have "ident x \<in> object_ids h" by (force simp: object_ids_def)
    with assms(3) F have "ident x \<notin> F" by auto
    with w(4) [OF that] show ?thesis by (simp add: s')
  qed
  have same: "ident x \<in> live s' \<longleftrightarrow> ident x \<in> live s"
    if "r \<in> set (related_hosts h)" "x \<in> set (rel_affected_entities r)" for r x
  proof
    assume "ident x \<in> live s'" then show "ident x \<in> live s" by (simp add: s')
  next
    assume "ident x \<in> live s"
    with that(2) have "x \<in> set (weak_items s r)" by (simp add: weak_items_def)
    from w(7) [OF that(1) this] obtain k where "(k, x) \<in> set (affected_entities h)" by force
    then show "ident x \<in> live s'" by (rule keep)
  qed
  show "\<forall>r \<in> set (related_hosts h). weak_items s' r = weak_items s r"
    unfolding weak_items_def using same by (auto intro!: filter_cong)
  have 3: "\<forall>(k, x) \<in> set (affected_entities h). entity_id x = k \<and> ident x \<in> live s'"
    using w(3) keep by auto
  have 4: "\<forall>a \<in> live s'. a < next_ident s'" using w(5) by (auto simp: s')
  have 5: "\<forall>r \<in> set (related_hosts h). \<forall>x \<in> set (rel_affected_entities r).
        ident x < next_ident s' \<and>
        (ident x \<in> live s' \<longrightarrow> x \<in> snd ` set (affected_entities h))"
  proof (intro ballI conjI impI)
    fix r x assume r: "r \<in> set (related_hosts h)" and x: "x \<in> set (rel_affected_entities r)"
    from w(6) [OF r x] show "ident x < next_ident s'" by (simp add: s')
    assume "ident x \<in> live s'"
    with same [OF r x] x have "x \<in> set (weak_items s r)" by (simp add: weak_items_def)
    from w(7) [OF r this] show "x \<in> snd ` set (affected_entities h)" .
  qed
  from w(1,2) 3 4 5 show "wf_graph s' h" unfolding wf_graph_def by blast
qed

lemma partition_strategy_closed:
  assumes "wf_graph s g"
    and "c = AffectedEntityTagRule \<longrightarrow> (\<forall>(k, x) \<in> set (affected_entities g). tags_ok x)"
  shows "\<exists>hs. partition_strategy c s g M b =
             Inr (fst (keep_ids (seed_ids c s g M) b s g),
                  (snd (keep_ids (seed_ids c s g M) b s g))\<lparr>related_hosts := hs\<rparr>)
           \<and> set hs \<subseteq> set (related_hosts g)"
proof (cases c)
  case HostnameRule
  show ?thesis
    unfolding HostnameRule partition_strategy.simps seed_ids.simps
      remove_by_hostnames_closed [OF assms(1)]
    by (intro exI [of _ "filter (\<lambda>x. weak_items (fst (keep_ids (hostname_ids s g M) b s g)) x \<noteq> [])
          (related_hosts g)"]) simp
next
  case AffectedEntityRule
  have "related_hosts (snd (keep_ids (name_ids g M) b s g)) = related_hosts g"
    by (simp add: keep_ids_def)
  then show ?thesis
    unfolding AffectedEntityRule partition_strategy.simps seed_ids.simps
      remove_by_name_closed [OF assms(1)]
    by (intro exI [of _ "related_hosts g"]) (simp add: keep_ids_def)
next
  case AffectedEntityTagRule
  with assms(2) have ok: "\<forall>(k, x) \<in> set (affected_entities g). tags_ok x" by simp
  show ?thesis
    unfolding AffectedEntityTagRule partition_strategy.simps seed_ids.simps
      remove_by_tags_closed [OF assms(1) ok]
    by (intro exI [of _ "related_hosts g"]) (simp add: keep_ids_def)
qed

lemma renumber_map_filter:
  assumes "\<And>x a. f (x\<lparr>ident := a\<rparr>) = f x" and "\<And>x a. P (x\<lparr>ident := a\<rparr>) = P x"
  shows "map (\<lambda>(k, x). f x) (filter (\<lambda>e. P (snd e)) (renumber n d))
           = map (\<lambda>(k, x). f x) (filter (\<lambda>e. P (snd e)) d)"
  by (induction n d rule: renumber.induct) (simp_all add: assms)

lemma renumber_image:
  assumes "\<And>x a. f (x\<lparr>ident := a\<rparr>) = f x" and "\<And>x a. P (x\<lparr>ident := a\<rparr>) = P x"
  shows "(\<lambda>(k, x). f x) ` {e \<in> set (renumber n d). P (snd e)}
           = (\<lambda>(k, x). f x) ` {e \<in> set d. P (snd e)}"
proof -
  have "(\<lambda>(k, x). f x) ` {e \<in> set xs. P (snd e)}
          = set (map (\<lambda>(k, x). f x) (filter (\<lambda>e. P (snd e)) xs))" for xs :: "(string \<times> AffectedEntity) list"
    by auto
  then show ?thesis by (simp only: renumber_map_filter [of f P, OF assms])
qed

lemma renumber_name_ids:
  "(\<lambda>(k, x). entity_id x) ` {e \<in> set (renumber n d). entity_name (snd e) \<in> S}
     = (\<lambda>(k, x). entity_id x) ` {e \<in> set d. entity_name (snd e) \<in> S}"
  by (rule renumber_image) simp_all

lemma renumber_tag_ids:
  "(\<lambda>(k, x). entity_id x) ` {e \<in> set (renumber n d). \<exists>t \<in> set (tag_strings (snd e)). t \<in> S}
     = (\<lambda>(k, x). entity_id x) ` {e \<in> set d. \<exists>t \<in> set (tag_strings (snd e)). t \<in> S}"
  by (rule renumber_image [where P = "\<lambda>x. \<exists>t \<in> set (tag_strings x). t \<in> S"])
     (simp_all add: tag_strings_def)

lemma renumber_tags_ok:
  "(\<forall>(k, x) \<in> set (renumber n d). tags_ok x) \<longleftrightarrow> (\<forall>(k, x) \<in> set d. tags_ok x)"
  by (induction n d rule: renumber.induct) (auto simp: tags_ok_def)

lemma weak_items_copied:
  assumes "wf_graph s g" and "r \<in> set (related_hosts g)"
  shows "map entity_id (weak_items (clone_store s g)
           (deepcopy_related (clone_store s g) (clone_memo s g) r))
         = map entity_id (weak_items s r)"
proof -
  let ?r' = "deepcopy_related (clone_store s g) (clone_memo s g) r"
  note c = copied_related [OF assms]
  have "ident y \<in> live (clone_store s g)" if "y \<in> set (rel_affected_entities ?r')" for y
  proof -
    from c that have "y \<in> snd ` set (renumber (next_ident s) (affected_entities g))"
      by (auto simp: list_all2_conv_all_nth in_set_conv_nth)
    then obtain k where "(k, y) \<in> set (renumber (next_ident s) (affected_entities g))" by force
    from renumber_mem [OF this] show ?thesis by (auto simp: clone_store_def)
  qed
  then have w: "weak_items (clone_store s g) ?r' = rel_affected_entities ?r'"
    by (simp add: weak_items_def)
  have "list_all2 (\<lambda>x y. entity_id y = entity_id x) (weak_items s r) (rel_affected_entities ?r')"
  proof (rule list_all2_mono [OF c])
    fix x y :: AffectedEntity
    assume "y = x\<lparr>ident := ident y\<rparr>
        \<and> y \<in> snd ` set (renumber (next_ident s) (affected_entities g))"
    then have "y = x\<lparr>ident := ident y\<rparr>" by simp
    then have "entity_id y = entity_id (x\<lparr>ident := ident y\<rparr>)" by simp
    then show "entity_id y = entity_id x" by simp
  qed
  then have "map entity_id (rel_affected_entities ?r') = map entity_id (weak_items s r)"
    by (induction rule: list_all2_induct) simp_all
  with w show ?thesis by simp
qed

lemma seed_ids_clone:
  assumes "wf_graph s g" and "deepcopy s g = (s1, c)"
  shows "seed_ids k s1 c M = seed_ids k s1 g M"
proof -
  from assms(2) deepcopy_closed [OF assms(1)]
  have s1: "s1 = clone_store s g"
    and c: "c = g\<lparr>affected_entities := renumber (next_ident s) (affected_entities g),
                   related_hosts := map (deepcopy_related s1 (clone_memo s g)) (related_hosts g)\<rparr>"
    by auto
  have dc: "affected_entities c = renumber (next_ident s) (affected_entities g)"
    by (subst c) simp
  have hc: "related_hosts c = map (deepcopy_related s1 (clone_memo s g)) (related_hosts g)"
    by (subst c) simp
  show ?thesis
  proof (cases k)
    case AffectedEntityRule
    then show ?thesis by (simp add: name_ids_def dc renumber_name_ids)
  next
    case AffectedEntityTagRule
    then show ?thesis by (simp add: tag_ids_def dc renumber_tag_ids)
  next
    case HostnameRule
    have e: "entity_id ` set (weak_items s1 (deepcopy_related s1 (clone_memo s g) r))
               = entity_id ` set (weak_items s1 r)"
      if "r \<in> set (related_hosts g)" for r
    proof -
      have "set (map entity_id (weak_items s1 (deepcopy_related s1 (clone_memo s g) r)))
              = set (map entity_id (weak_items s r))"
        using weak_items_copied [OF assms(1) that] by (simp only: s1)
      then show ?thesis
        using weak_items_clone_store [OF assms(1) that] by (simp add: s1)
    qed
    have n: "rel_entity_name (deepcopy_related s1 (clone_memo s g) r) = rel_entity_name r" for r
      by (simp add: deepcopy_related_def)
    let ?f = "deepcopy_related s1 (clone_memo s g)"
    have "hostname_ids s1 c M = hostname_ids s1 g M"
    proof (intro equalityI subsetI)
      fix a assume "a \<in> hostname_ids s1 c M"
      then obtain r where r: "r \<in> set (related_hosts g)" "rel_entity_name (?f r) \<in> M"
        "a \<in> entity_id ` set (weak_items s1 (?f r))"
        unfolding hostname_ids_def hc by auto
      from r(3) e [OF r(1)] have "a \<in> entity_id ` set (weak_items s1 r)" by simp
      with r(1,2) n show "a \<in> hostname_ids s1 g M"
        unfolding hostname_ids_def by auto
    next
      fix a assume "a \<in> hostname_ids s1 g M"
      then obtain r where r: "r \<in> set (related_hosts g)" "rel_entity_name r \<in> M"
        "a \<in> entity_id ` set (weak_items s1 r)"
        unfolding hostname_ids_def by auto
      from r(3) e [OF r(1)] have "a \<in> entity_id ` set (weak_items s1 (?f r))" by simp
      moreover have "?f r \<in> set (related_hosts c)" using r(1) by (simp add: hc)
      moreover have "rel_entity_name (?f r) \<in> M" using r(2) n by simp
      ultimately show "a \<in> hostname_ids s1 c M"
        unfolding hostname_ids_def by blast
    qed
    then show ?thesis by (simp add: HostnameRule)
  qed
qed

lemma seed_ids_frame:
  assumes "\<forall>r \<in> set (related_hosts c). weak_items s2 r = weak_items s1 r"
  shows "seed_ids k s2 c M = seed_ids k s1 c M"
  using assms by (cases k) (auto simp: hostname_ids_def)

lemma get_match_and_remainder_partition:
  assumes "wf_graph s g"
    and "k = AffectedEntityTagRule \<longrightarrow> (\<forall>(i, x) \<in> set (affected_entities g). tags_ok x)"
  shows "\<exists>s3 gm gr. get_match_and_remainder k s g M = Inr (s3, gm, gr)
           \<and> affected_ids gm \<inter> affected_ids gr = {}
           \<and> affected_ids gm \<union> affected_ids gr = affected_ids g"
proof -
  obtain s1 c where dc: "deepcopy s g = (s1, c)" by (cases "deepcopy s g")
  note w1 = wf_deepcopy [OF assms(1) dc]
  let ?K = "seed_ids k s1 g M"
  obtain s2 g2 where k2: "keep_ids ?K False s1 g = (s2, g2)" by (cases "keep_ids ?K False s1 g")
  from partition_strategy_closed [OF w1(2) assms(2), of M False] k2
  obtain hs where p1: "partition_strategy k s1 g M False = Inr (s2, g2\<lparr>related_hosts := hs\<rparr>)"
    by auto
  have disj: "object_ids g \<inter> object_ids c = {}" using w1(3) by auto
  note f = frame_keep_ids [OF w1(1) k2 disj]
  have cd: "affected_entities c = renumber (next_ident s) (affected_entities g)"
    using dc deepcopy_closed [OF assms(1)] by auto
  have tc: "k = AffectedEntityTagRule \<longrightarrow> (\<forall>(i, x) \<in> set (affected_entities c). tags_ok x)"
    using assms(2) by (simp only: cd renumber_tags_ok)
  have K: "seed_ids k s2 c M = ?K"
    using seed_ids_frame [OF f(2), of k M] seed_ids_clone [OF assms(1) dc, of k M] by simp
  obtain s3 g3 where k3: "keep_ids ?K True s2 c = (s3, g3)" by (cases "keep_ids ?K True s2 c")
  from partition_strategy_closed [OF f(1) tc, of M True] k3 K
  obtain hs' where p2: "partition_strategy k s2 c M True = Inr (s3, g3\<lparr>related_hosts := hs'\<rparr>)"
    by auto
  have r: "get_match_and_remainder k s g M
             = Inr (s3, g2\<lparr>related_hosts := hs\<rparr>, g3\<lparr>related_hosts := hs'\<rparr>)"
    by (simp add: get_match_and_remainder_def dc p1 p2)
  have a2: "affected_ids (g2\<lparr>related_hosts := hs\<rparr>) = affected_ids g \<inter> ?K"
    using k2 by (auto simp: keep_ids_def affected_ids_def)
  have ac: "affected_ids c = affected_ids g"
    using renumber_keys [of "next_ident s" "affected_entities g"]
    by (simp add: affected_ids_def cd del: renumber_keys flip: set_map)
  have "affected_ids (g3\<lparr>related_hosts := hs'\<rparr>) = affected_ids c - ?K"
    using k3 by (auto simp: keep_ids_def affected_ids_def)
  with ac have a3: "affected_ids (g3\<lparr>related_hosts := hs'\<rparr>) = affected_ids g - ?K"
    by simp
  from r a2 a3 show ?thesis by auto
qed


lemma all_string_representations_fail:
  "\<exists>x \<in> set xs. \<not> tags_ok x \<Longrightarrow> all_string_representations xs = Inl KeyError"
proof (induction xs)
  case Nil
  then show ?case by simp
next
  case (Cons x xs)
  show ?case
  proof (cases "tags_ok x")
    case True
    with Cons have "all_string_representations xs = Inl KeyError" by auto
    with True show ?thesis by (simp add: tags_ok_def string_representations_ok)
  next
    case False
    then show ?thesis by (simp add: tags_ok_def string_representations_fail)
  qed
qed


lemma target_tags_ok:
  assumes "target_attribute_values k s g = Inr t"
  shows "k = AffectedEntityTagRule \<longrightarrow> (\<forall>(i, x) \<in> set (affected_entities g). tags_ok x)"
proof (intro impI, rule ccontr)
  assume k: "k = AffectedEntityTagRule" and "\<not> (\<forall>(i, x) \<in> set (affected_entities g). tags_ok x)"
  then have "\<exists>x \<in> set (map snd (affected_entities g)). \<not> tags_ok x" by force
  from all_string_representations_fail [OF this] assms k show False
    by (simp add: affected_entity_tags_def)
qed

lemma match_below:
  assumes "truthy (minimum_score r)" and "risk_score g < num_value (the (minimum_score r))"
  shows "match r s (Some g) = Inr (s, None, Some g)"
  using assms by (simp add: match_def)



lemma match_stop:
  assumes "\<not> (truthy (minimum_score r) \<and> risk_score g < num_value (the (minimum_score r)))"
    and "target_attribute_values (cls r) s g = Inr t"
    and "\<exists>x \<in> set t. eval_function r x (value r)"
    and "stop_after_match r"
  shows "match r s (Some g) = Inr (s, Some g, None)"
  using assms by (auto simp: match_def filter_empty_conv)

lemma match_partition:
  assumes "wf_graph s g"
    and "\<not> (truthy (minimum_score r) \<and> risk_score g < num_value (the (minimum_score r)))"
    and "target_attribute_values (cls r) s g = Inr t"
    and "\<exists>x \<in> set t. eval_function r x (value r)"
    and "\<not> stop_after_match r"
  shows "\<exists>s3 gm gr. match r s (Some g) = Inr (s3, Some gm, Some gr)
           \<and> affected_ids gm \<inter> affected_ids gr = {}
           \<and> affected_ids gm \<union> affected_ids gr = affected_ids g"
proof -
  let ?M = "set (filter (\<lambda>x. eval_function r x (value r)) t)"
  from get_match_and_remainder_partition [OF assms(1) target_tags_ok [OF assms(3)], of ?M]
  obtain s3 gm gr where g: "get_match_and_remainder (cls r) s g ?M = Inr (s3, gm, gr)"
    "affected_ids gm \<inter> affected_ids gr = {}" "affected_ids gm \<union> affected_ids gr = affected_ids g"
    by blast
  have ne: "filter (\<lambda>x. eval_function r x (value r)) t \<noteq> []"
    using assms(4) by (simp add: filter_empty_conv)
  have "match r s (Some g) = Inr (s3, Some gm, Some gr)"
    using assms(2,3,5) ne g(1) by (simp add: match_def Let_def)
  with g(2,3) show ?thesis by blast
qed

subsection \<open>Partition completeness\<close>




subsection \<open>The threshold\<close>

text \<open>
  Claim C6. For a graph whose risk score is not negative: a rule whose minimum score equals
  the risk score is evaluated as the rule without a minimum score is, and on a well-formed
  graph it returns a matched graph whenever an element of its target view satisfies its
  predicate; a rule whose minimum score is greater than the risk score returns no match
  and the graph itself, in the unchanged store.
\<close>

theorem threshold_boundary:
  assumes "0 \<le> risk_score g"
  shows "(minimum_score r = Some m \<and> num_value m = risk_score g \<longrightarrow>
            match r s (Some g) = match (r\<lparr>minimum_score := None\<rparr>) s (Some g))
       \<and> (wf_graph s g \<and> minimum_score r = Some m \<and> num_value m = risk_score g
            \<and> target_attribute_values (cls r) s g = Inr t
            \<and> (\<exists>x \<in> set t. eval_function r x (value r))
          \<longrightarrow> (\<exists>s' m rem. match r s (Some g) = Inr (s', Some m, rem)))
       \<and> (\<forall>v. minimum_score r = Some v \<and> risk_score g < num_value v \<longrightarrow>
            match r s (Some g) = Inr (s, None, Some g))"
proof (intro conjI impI allI)
  assume "minimum_score r = Some m \<and> num_value m = risk_score g"
  then show "match r s (Some g) = match (r\<lparr>minimum_score := None\<rparr>) s (Some g)"
    by (simp add: match_def Let_def cong: sum.case_cong if_cong)
next
  assume a: "wf_graph s g \<and> minimum_score r = Some m \<and> num_value m = risk_score g
            \<and> target_attribute_values (cls r) s g = Inr t
            \<and> (\<exists>x \<in> set t. eval_function r x (value r))"
  then have nb: "\<not> (truthy (minimum_score r) \<and> risk_score g < num_value (the (minimum_score r)))"
    by simp
  show "\<exists>s' m rem. match r s (Some g) = Inr (s', Some m, rem)"
  proof (cases "stop_after_match r")
    case True
    with match_stop [OF nb] a show ?thesis by blast
  next
    case False
    with match_partition [OF _ nb] a show ?thesis by blast
  qed
next
  fix v assume "minimum_score r = Some v \<and> risk_score g < num_value v"
  with assms show "match r s (Some g) = Inr (s, None, Some g)"
    by (intro match_below) auto
qed

theorem threshold_boundary_witness:
  "(\<exists>s' m rem. match (rule_catch_all (Some (PyFloat 4.3))) test_store (Some test_graph)
       = Inr (s', Some m, rem))
   \<and> match (rule_catch_all (Some (PyFloat 5.3))) test_store (Some test_graph)
       = Inr (test_store, None, Some test_graph)"
proof -
  have r: "0 \<le> risk_score test_graph" "risk_score test_graph = 4.3"
    by (simp_all add: test_graph_def)
  have t: "target_attribute_values HostnameRule test_store test_graph = Inr [''host1'', ''host2'']"
    by (simp add: related_hostnames_def weak_items_def test_graph_def test_store_def
          host1_def host2_def process1_def process2_def process3_def)
  have c: "contains ''host1'' []" by (simp add: contains_def)
  note th = threshold_boundary [OF r(1), where s = test_store and t = "[''host1'', ''host2'']"
      and m = "PyFloat 4.3"]
  have 1: "\<exists>s' m rem. match (rule_catch_all (Some (PyFloat 4.3))) test_store (Some test_graph)
       = Inr (s', Some m, rem)"
    using th [where r = "rule_catch_all (Some (PyFloat 4.3))", THEN conjunct2, THEN conjunct1] wf_test_graph r(2) t c
    by (simp add: rule_catch_all_def)
  have 2: "match (rule_catch_all (Some (PyFloat 5.3))) test_store (Some test_graph)
       = Inr (test_store, None, Some test_graph)"
    using th [where r = "rule_catch_all (Some (PyFloat 5.3))", THEN conjunct2, THEN conjunct2, rule_format, of "PyFloat 5.3"] r(2)
    by (simp add: rule_catch_all_def)
  from 1 2 show ?thesis by blast
qed

subsection \<open>Catch-all rules\<close>

lemma Rule_init_empty_pattern:
  assumes "Rule_init k (Some []) op ms sam ps = Inr r"
    and "op \<in> {''startswith'', ''startswithIgnoreCase'', ''contains'', ''containsIgnoreCase''}"
  shows "eval_function r x (value r)" and "minimum_score r = ms" and "cls r = k"
proof -
  have s: "supported_operators k = SUPPORTED_OPERATORS"
    by (cases k) (simp_all add: HOSTNAME_SUPPORTED_OPERATORS_def)
  from assms(2) consider "op = ''startswith''" | "op = ''startswithIgnoreCase''"
    | "op = ''contains''" | "op = ''containsIgnoreCase''" by auto
  then have "eval_function r x (value r) \<and> minimum_score r = ms \<and> cls r = k"
  proof cases
    case 1
    with assms(1) show ?thesis
      by (auto simp: Rule_init_def s SUPPORTED_OPERATORS_def startswith_def split: if_splits)
  next
    case 2
    with assms(1) show ?thesis
      by (auto simp: Rule_init_def s SUPPORTED_OPERATORS_def startswith_ignore_case_def
            startswith_def lower_def split: if_splits)
  next
    case 3
    with assms(1) show ?thesis
      by (auto simp: Rule_init_def s SUPPORTED_OPERATORS_def contains_def split: if_splits)
  next
    case 4
    with assms(1) show ?thesis
      by (auto simp: Rule_init_def s SUPPORTED_OPERATORS_def contains_ignore_case_def
            contains_def lower_def split: if_splits)
  qed
  then show "eval_function r x (value r)" and "minimum_score r = ms" and "cls r = k"
    by simp_all
qed

text \<open>
  Claim C8, as amended. With the empty pattern the operators starts-with and contains,
  and their case-insensitive variants, are true of every candidate. Hence a rule
  constructed with the empty value and one of these four operators returns a matched graph
  for every well-formed graph whose target view is not empty, provided the graph is not
  below the threshold: the rule has no minimum score, or a minimum score of zero, or one
  that is at most the risk score of the graph.
\<close>

theorem empty_pattern_matches:
  "startswith candidate [] \<and> contains candidate []
   \<and> startswith_ignore_case candidate [] \<and> contains_ignore_case candidate []
   \<and> (Rule_init k (Some []) op ms sam ps = Inr r
       \<and> op \<in> {''startswith'', ''startswithIgnoreCase'', ''contains'', ''containsIgnoreCase''}
       \<and> (\<forall>v. ms = Some v \<longrightarrow> num_value v = 0 \<or> num_value v \<le> risk_score g)
       \<and> wf_graph s g \<and> target_attribute_values k s g = Inr t \<and> t \<noteq> []
      \<longrightarrow> (\<exists>s' m rem. match r s (Some g) = Inr (s', Some m, rem)))"
proof (intro conjI impI)
  show "startswith candidate []" by (simp add: startswith_def)
  show "contains candidate []" by (simp add: contains_def)
  show "startswith_ignore_case candidate []"
    by (simp add: startswith_ignore_case_def startswith_def lower_def)
  show "contains_ignore_case candidate []"
    by (simp add: contains_ignore_case_def contains_def lower_def)
next
  assume a: "Rule_init k (Some []) op ms sam ps = Inr r
       \<and> op \<in> {''startswith'', ''startswithIgnoreCase'', ''contains'', ''containsIgnoreCase''}
       \<and> (\<forall>v. ms = Some v \<longrightarrow> num_value v = 0 \<or> num_value v \<le> risk_score g)
       \<and> wf_graph s g \<and> target_attribute_values k s g = Inr t \<and> t \<noteq> []"
  then have init: "Rule_init k (Some []) op ms sam ps = Inr r"
    and op: "op \<in> {''startswith'', ''startswithIgnoreCase'', ''contains'', ''containsIgnoreCase''}"
    by simp_all
  note ri = Rule_init_empty_pattern [OF init op]
  have nb: "\<not> (truthy (minimum_score r) \<and> risk_score g < num_value (the (minimum_score r)))"
    using a by (cases ms) (auto simp: ri(2))
  have tv: "target_attribute_values (cls r) s g = Inr t" using a by (simp add: ri(3))
  from a obtain x where "x \<in> set t" by (cases t) auto
  with ri(1) have ex: "\<exists>x \<in> set t. eval_function r x (value r)" by blast
  have w: "wf_graph s g" using a by simp
  show "\<exists>s' m rem. match r s (Some g) = Inr (s', Some m, rem)"
  proof (cases "stop_after_match r")
    case True
    with match_stop [OF nb tv ex] show ?thesis by blast
  next
    case False
    with match_partition [OF w nb tv ex] show ?thesis by blast
  qed
qed

lemma Rule_init_catch_all:
  "(ms = None \<or> ms = Some (PyFloat 8) \<or> ms = Some (PyInt 4)) \<Longrightarrow>
   Rule_init HostnameRule (Some []) ''contains'' ms False test_params = Inr (rule_catch_all ms)"
  by (auto simp: Rule_init_def HOSTNAME_SUPPORTED_OPERATORS_def SUPPORTED_OPERATORS_def
        rule_catch_all_def test_params_def)

lemma target_test_graph:
  "target_attribute_values HostnameRule test_store test_graph = Inr [''host1'', ''host2'']"
  by (simp add: related_hostnames_def weak_items_def test_graph_def test_store_def
        host1_def host2_def process1_def process2_def process3_def)

theorem empty_pattern_matches_witness:
  "\<exists>s' m rem. match (rule_catch_all (Some (PyInt 4))) test_store (Some test_graph) = Inr (s', Some m, rem)"
proof -
  have "\<forall>v. Some (PyInt 4) = Some v \<longrightarrow> num_value v = 0 \<or> num_value v \<le> risk_score test_graph"
    by (simp add: test_graph_def)
  with empty_pattern_matches [of "[]" HostnameRule "''contains''" "Some (PyInt 4)" False test_params
      "rule_catch_all (Some (PyInt 4))" test_graph test_store "[''host1'', ''host2'']"]
    Rule_init_catch_all [of "Some (PyInt 4)"] wf_test_graph target_test_graph
  show ?thesis by simp
qed

theorem empty_pattern_matches_counterexample:
  "Rule_init HostnameRule (Some []) ''contains'' (Some (PyFloat 8)) False test_params
     = Inr (rule_catch_all (Some (PyFloat 8)))
   \<and> target_attribute_values HostnameRule test_store test_graph = Inr [''host1'', ''host2'']
   \<and> match (rule_catch_all (Some (PyFloat 8))) test_store (Some test_graph)
     = Inr (test_store, None, Some test_graph)"
proof (intro conjI)
  show "Rule_init HostnameRule (Some []) ''contains'' (Some (PyFloat 8)) False test_params
     = Inr (rule_catch_all (Some (PyFloat 8)))"
    by (rule Rule_init_catch_all) simp
  show "target_attribute_values HostnameRule test_store test_graph = Inr [''host1'', ''host2'']"
    by (rule target_test_graph)
  show "match (rule_catch_all (Some (PyFloat 8))) test_store (Some test_graph)
     = Inr (test_store, None, Some test_graph)"
    by (simp add: match_def rule_catch_all_def test_graph_def)
qed

subsection \<open>Clone independence\<close>

lemma apply_removal_keep:
  assumes "wf_graph s g" and "apply_removal s g op = Inr (s', g')"
  shows "\<exists>ids b g1. keep_ids ids b s g = (s', g1) \<and> affected_entities g' = affected_entities g1"
proof (cases op)
  case (ByName S b)
  with assms(2) remove_by_name_closed [OF assms(1), of S b]
  have "keep_ids (name_ids g S) b s g = (s', g')" by simp
  then show ?thesis by blast
next
  case (ByTags S b)
  show ?thesis
  proof (cases "\<forall>(k, x) \<in> set (affected_entities g). tags_ok x")
    case True
    with ByTags assms(2) remove_by_tags_closed [OF assms(1) True, of S b]
    have "keep_ids (tag_ids g S) b s g = (s', g')" by simp
    then show ?thesis by blast
  next
    case False
    with ByTags assms(2) remove_by_tags_fail [OF False, of s S b] show ?thesis by simp
  qed
next
  case (ByRelatedHostnames S b)
  obtain s1 g1 where k: "keep_ids (hostname_ids s g S) b s g = (s1, g1)"
    by (cases "keep_ids (hostname_ids s g S) b s g")
  from ByRelatedHostnames assms(2) remove_by_hostnames_closed [OF assms(1), of S b] k
  have "s' = s1" "affected_entities g' = affected_entities g1" by auto
  with k show ?thesis by blast
qed

lemma apply_removal_frame:
  assumes "wf_graph s g" and "wf_graph s h" and "object_ids g \<inter> object_ids h = {}"
    and "apply_removal s g op = Inr (s', g')"
  shows "wf_graph s' h" and "\<forall>r \<in> set (related_hosts h). weak_items s' r = weak_items s r"
    and "object_ids g' \<inter> object_ids h = {}"
proof -
  from apply_removal_keep [OF assms(1,4)] obtain ids b g1
    where k: "keep_ids ids b s g = (s', g1)" and d: "affected_entities g' = affected_entities g1"
    by blast
  from frame_keep_ids [OF assms(2) k assms(3)]
  show "wf_graph s' h" and "\<forall>r \<in> set (related_hosts h). weak_items s' r = weak_items s r"
    by simp_all
  have "object_ids g' \<subseteq> object_ids g"
    using k d by (auto simp: keep_ids_def object_ids_def)
  with assms(3) show "object_ids g' \<inter> object_ids h = {}" by auto
qed

lemma apply_removals_frame:
  assumes "wf_graph s g" and "wf_graph s h" and "object_ids g \<inter> object_ids h = {}"
    and "apply_removals s g ops = Inr (s', g')"
  shows "wf_graph s' h \<and> (\<forall>r \<in> set (related_hosts h). weak_items s' r = weak_items s r)"
  using assms
proof (induction ops arbitrary: s g)
  case Nil
  then show ?case by simp
next
  case (Cons op ops)
  from Cons.prems(4) obtain s1 g1 where 1: "apply_removal s g op = Inr (s1, g1)"
    and 2: "apply_removals s1 g1 ops = Inr (s', g')"
    by (auto split: sum.splits)
  note f = apply_removal_frame [OF Cons.prems(1,2,3) 1]
  have w1: "wf_graph s1 g1" by (rule wf_apply_removal [OF Cons.prems(1) 1])
  from Cons.IH [OF w1 f(1) f(3) 2] f(2) show ?case by simp
qed

lemma renumber_entry_values: "map entry_values (renumber n d) = map entry_values d"
  by (induction n d rule: renumber.induct) (simp_all add: entry_values_def)

lemma deepcopy_copy:
  assumes "wf_graph s g" and "deepcopy s g = (s1, c)"
  shows "map entry_values (affected_entities c) = map entry_values (affected_entities g)"
    and "map rel_entity_id (related_hosts c) = map rel_entity_id (related_hosts g)"
    and "map rel_entity_name (related_hosts c) = map rel_entity_name (related_hosts g)"
    and "map (\<lambda>r. map entity_id (weak_items s1 r)) (related_hosts c)
           = map (\<lambda>r. map entity_id (weak_items s r)) (related_hosts g)"
proof -
  from assms(2) deepcopy_closed [OF assms(1)]
  have s1: "s1 = clone_store s g"
    and c: "c = g\<lparr>affected_entities := renumber (next_ident s) (affected_entities g),
                   related_hosts := map (deepcopy_related s1 (clone_memo s g)) (related_hosts g)\<rparr>"
    by auto
  show "map entry_values (affected_entities c) = map entry_values (affected_entities g)"
    by (subst c) (simp add: renumber_entry_values)
  show "map rel_entity_id (related_hosts c) = map rel_entity_id (related_hosts g)"
    by (subst c) (simp add: deepcopy_related_def)
  show "map rel_entity_name (related_hosts c) = map rel_entity_name (related_hosts g)"
    by (subst c) (simp add: deepcopy_related_def)
  have "map entity_id (weak_items s1 (deepcopy_related s1 (clone_memo s g) r))
          = map entity_id (weak_items s r)" if "r \<in> set (related_hosts g)" for r
    using weak_items_copied [OF assms(1) that] by (simp only: s1)
  then show "map (\<lambda>r. map entity_id (weak_items s1 r)) (related_hosts c)
           = map (\<lambda>r. map entity_id (weak_items s r)) (related_hosts g)"
    by (subst c) simp
qed

text \<open>
  Claim C3. The clone of a well-formed graph is a copy: its dictionary has the same keys
  and attribute values in the same order, its related entities the same ids, names and
  related affected-entity ids. Every live referent of a weak set of the clone is an object
  of the clone's own dictionary and not one of the source's objects. Whatever sequence of
  removals is applied to the clone, the objects of the source's dictionary stay alive and
  the weak sets of the source's related entities show what they showed before; and the
  same holds for the clone when the removals are applied to the source.
\<close>

theorem clone_independence:
  assumes "wf_graph s g" and "deepcopy s g = (s1, c)"
  shows "map entry_values (affected_entities c) = map entry_values (affected_entities g)
       \<and> map rel_entity_id (related_hosts c) = map rel_entity_id (related_hosts g)
       \<and> map rel_entity_name (related_hosts c) = map rel_entity_name (related_hosts g)
       \<and> map (\<lambda>r. map entity_id (weak_items s1 r)) (related_hosts c)
           = map (\<lambda>r. map entity_id (weak_items s r)) (related_hosts g)
       \<and> (\<forall>r \<in> set (related_hosts c). \<forall>x \<in> set (weak_items s1 r).
            x \<in> snd ` set (affected_entities c) \<and> ident x \<notin> object_ids g)
       \<and> (\<forall>ops s2 c'. apply_removals s1 c ops = Inr (s2, c') \<longrightarrow>
            (\<forall>(k, x) \<in> set (affected_entities g). ident x \<in> live s2)
          \<and> (\<forall>r \<in> set (related_hosts g). weak_items s2 r = weak_items s r))
       \<and> (\<forall>ops s2 g'. apply_removals s1 g ops = Inr (s2, g') \<longrightarrow>
            (\<forall>(k, x) \<in> set (affected_entities c). ident x \<in> live s2)
          \<and> (\<forall>r \<in> set (related_hosts c). weak_items s2 r = weak_items s1 r))"
proof -
  note w = wf_deepcopy [OF assms]
  note cp = deepcopy_copy [OF assms]
  have s1: "s1 = clone_store s g" using assms(2) deepcopy_closed [OF assms(1)] by auto
  have fresh: "\<forall>r \<in> set (related_hosts c). \<forall>x \<in> set (weak_items s1 r).
            x \<in> snd ` set (affected_entities c) \<and> ident x \<notin> object_ids g"
  proof (intro ballI)
    fix r x assume r: "r \<in> set (related_hosts c)" and x: "x \<in> set (weak_items s1 r)"
    from wf_graphD(7) [OF w(1) r x] have m: "x \<in> snd ` set (affected_entities c)" .
    then have "ident x \<in> object_ids c" by (force simp: object_ids_def)
    with w(3) m show "x \<in> snd ` set (affected_entities c) \<and> ident x \<notin> object_ids g" by auto
  qed
  have on_clone: "(\<forall>(k, x) \<in> set (affected_entities g). ident x \<in> live s2)
          \<and> (\<forall>r \<in> set (related_hosts g). weak_items s2 r = weak_items s r)"
    if "apply_removals s1 c ops = Inr (s2, c')" for ops s2 c'
  proof -
    from apply_removals_frame [OF w(1) w(2) w(3) that]
    have a: "wf_graph s2 g" and b: "\<forall>r \<in> set (related_hosts g). weak_items s2 r = weak_items s1 r"
      by simp_all
    from wf_graphD(4) [OF a] have "\<forall>(k, x) \<in> set (affected_entities g). ident x \<in> live s2"
      by auto
    moreover from b weak_items_clone_store [OF assms(1)]
    have "\<forall>r \<in> set (related_hosts g). weak_items s2 r = weak_items s r"
      by (simp add: s1)
    ultimately show ?thesis by simp
  qed
  have on_source: "(\<forall>(k, x) \<in> set (affected_entities c). ident x \<in> live s2)
          \<and> (\<forall>r \<in> set (related_hosts c). weak_items s2 r = weak_items s1 r)"
    if "apply_removals s1 g ops = Inr (s2, g')" for ops s2 g'
  proof -
    have d: "object_ids g \<inter> object_ids c = {}" using w(3) by auto
    from apply_removals_frame [OF w(2) w(1) d that]
    have a: "wf_graph s2 c" and b: "\<forall>r \<in> set (related_hosts c). weak_items s2 r = weak_items s1 r"
      by simp_all
    from wf_graphD(4) [OF a] have "\<forall>(k, x) \<in> set (affected_entities c). ident x \<in> live s2"
      by auto
    with b show ?thesis by simp
  qed
  from cp fresh on_clone on_source show ?thesis by blast
qed

lemma removals_on_test_clone:
  "case apply_removals (fst (deepcopy test_store test_graph)) (snd (deepcopy test_store test_graph))
          test_removals of
     Inr (s2, c') \<Rightarrow> affected_entities c' = [] \<and> related_hostnames s2 c' = []
       \<and> affected_entity_names test_graph = [''process1'', ''process2'', ''process3'']
       \<and> related_hostnames s2 test_graph = [''host1'', ''host2'']
   | Inl e \<Rightarrow> False"
  by code_simp

theorem clone_independence_witness:
  "\<exists>s2 c'. apply_removals (fst (deepcopy test_store test_graph))
              (snd (deepcopy test_store test_graph)) test_removals = Inr (s2, c')
     \<and> (\<forall>(k, x) \<in> set (affected_entities test_graph). ident x \<in> live s2)
     \<and> (\<forall>r \<in> set (related_hosts test_graph). weak_items s2 r = weak_items test_store r)"
proof -
  from removals_on_test_clone obtain s2 c'
    where e: "apply_removals (fst (deepcopy test_store test_graph))
              (snd (deepcopy test_store test_graph)) test_removals = Inr (s2, c')"
    by (auto split: sum.splits)
  have d: "deepcopy test_store test_graph
             = (fst (deepcopy test_store test_graph), snd (deepcopy test_store test_graph))"
    by simp
  note c = clone_independence [OF wf_test_graph d]
  from c have "\<forall>ops s2 c'. apply_removals (fst (deepcopy test_store test_graph))
              (snd (deepcopy test_store test_graph)) ops = Inr (s2, c') \<longrightarrow>
            (\<forall>(k, x) \<in> set (affected_entities test_graph). ident x \<in> live s2)
          \<and> (\<forall>r \<in> set (related_hosts test_graph). weak_items s2 r = weak_items test_store r)"
    by blast
  with e show ?thesis by blast
qed

subsection \<open>Construction\<close>

lemma make_affected_entities_idents:
  "make_affected_entities tbl n ids = Some aes \<Longrightarrow> map ident aes = [n..<n + length ids]"
proof (induction ids arbitrary: n aes)
  case Nil
  then show ?case by simp
next
  case (Cons i ids)
  from Cons.prems obtain e aes' where e: "tbl i = Some e"
    and r: "make_affected_entities tbl (Suc n) ids = Some aes'"
    and aes: "aes = \<lparr>ident = n, entity_id = ed_entity_id e,
                      entity_name = ed_entity_name e, tags = ed_tags e\<rparr> # aes'"
    by (auto split: option.splits)
  from Cons.IH [OF r] have ih: "map ident aes' = [Suc n..<Suc n + length ids]" .
  have u: "[n..<n + length (i # ids)] = n # [Suc n..<Suc n + length ids]"
    using upt_conv_Cons [of n "n + Suc (length ids)"] by (simp del: upt_Suc)
  show ?case unfolding u aes using ih by (simp del: upt_Suc)
qed

lemma make_affected_entities_from_table:
  "make_affected_entities tbl n ids = Some aes \<Longrightarrow> x \<in> set aes \<Longrightarrow>
     \<exists>i \<in> set ids. \<exists>e. tbl i = Some e \<and> entity_id x = ed_entity_id e
           \<and> entity_name x = ed_entity_name e \<and> tags x = ed_tags e"
proof (induction ids arbitrary: n aes)
  case Nil
  then show ?case by simp
next
  case (Cons i ids)
  from Cons.prems(1) obtain e aes' where e: "tbl i = Some e"
    and r: "make_affected_entities tbl (Suc n) ids = Some aes'"
    and aes: "aes = \<lparr>ident = n, entity_id = ed_entity_id e,
                      entity_name = ed_entity_name e, tags = ed_tags e\<rparr> # aes'"
    by (auto split: option.splits)
  from Cons.prems(2) aes consider "x = \<lparr>ident = n, entity_id = ed_entity_id e,
                      entity_name = ed_entity_name e, tags = ed_tags e\<rparr>" | "x \<in> set aes'"
    by auto
  then show ?case
  proof cases
    case 1
    with e show ?thesis by auto
  next
    case 2
    from Cons.IH [OF r 2] show ?thesis by auto
  qed
qed

lemma make_related_hosts_refs:
  assumes "make_related_hosts tbl affected hs = Some rs" and "r \<in> set rs"
  shows "set (rel_affected_entities r) \<subseteq> set affected"
  using assms
proof (induction hs arbitrary: rs)
  case Nil
  then show ?case by simp
next
  case (Cons h hs)
  from Cons.prems(1) obtain r1 rs1 where 1: "make_related_host tbl affected h = Some r1"
    and 2: "make_related_hosts tbl affected hs = Some rs1" and rs: "rs = r1 # rs1"
    by (auto split: Option.bind_splits)
  from 1 have "set (rel_affected_entities r1) \<subseteq> set affected"
    by (auto simp: make_related_host_def split: Option.bind_splits if_splits)
  with Cons.IH [OF 2] Cons.prems(2) rs show ?case by auto
qed

lemma dict_set_keys: "fst ` set (dict_set k v d) = insert k (fst ` set d)"
proof (induction d)
  case Nil
  then show ?case by simp
next
  case (Cons e d)
  obtain k' v' where e: "e = (k', v')" by (cases e)
  show ?case
  proof (cases "k' = k")
    case True
    with e show ?thesis by simp
  next
    case False
    with e Cons show ?thesis by (simp add: insert_commute)
  qed
qed

lemma dict_set_distinct: "distinct (map fst d) \<Longrightarrow> distinct (map fst (dict_set k v d))"
proof (induction d)
  case Nil
  then show ?case by simp
next
  case (Cons e d)
  obtain k' v' where e: "e = (k', v')" by (cases e)
  show ?case
  proof (cases "k' = k")
    case True
    with Cons.prems e show ?thesis by simp
  next
    case False
    have "k' \<notin> fst ` set (dict_set k v d)"
      using Cons.prems e False by (simp add: dict_set_keys)
    with Cons e False show ?thesis by simp
  qed
qed

lemma dict_set_subset: "set (dict_set k v d) \<subseteq> insert (k, v) (set d)"
proof (induction d)
  case Nil
  then show ?case by simp
next
  case (Cons e d)
  obtain k' v' where e: "e = (k', v')" by (cases e)
  with Cons show ?case by (cases "k' = k") auto
qed

lemma dict_by_entity_id_props_gen:
  assumes "distinct (map fst d)" and "\<forall>(k, x) \<in> set d. entity_id x = k \<and> x \<in> A"
    and "set xs \<subseteq> A"
  shows "distinct (map fst (foldl (\<lambda>d x. dict_set (entity_id x) x d) d xs))
       \<and> (\<forall>(k, x) \<in> set (foldl (\<lambda>d x. dict_set (entity_id x) x d) d xs). entity_id x = k \<and> x \<in> A)"
  using assms
proof (induction xs arbitrary: d)
  case Nil
  then show ?case by simp
next
  case (Cons x xs)
  let ?d = "dict_set (entity_id x) x d"
  have 1: "distinct (map fst ?d)" by (rule dict_set_distinct [OF Cons.prems(1)])
  have 2: "\<forall>(k, y) \<in> set ?d. entity_id y = k \<and> y \<in> A"
    using dict_set_subset [of "entity_id x" x d] Cons.prems(2,3) by auto
  from Cons.IH [OF 1 2] Cons.prems(3) show ?case by simp
qed

lemma dict_by_entity_id_props:
  "distinct (map fst (dict_by_entity_id xs))"
  "(k, x) \<in> set (dict_by_entity_id xs) \<Longrightarrow> entity_id x = k \<and> x \<in> set xs"
  using dict_by_entity_id_props_gen [of "[]" "set xs" xs]
  by (auto simp: dict_by_entity_id_def)

lemma create_data_shape:
  assumes "create_data n sp aff rel = Some data"
  shows "\<exists>ids affected. affectedEntities sp = Some ids
           \<and> make_affected_entities aff n ids = Some affected
           \<and> affected_entities data = dict_by_entity_id affected
           \<and> (\<forall>r \<in> set (related_hosts data). set (rel_affected_entities r) \<subseteq> set affected)"
proof -
  from assms obtain ids affected rl hs related
    where a: "affectedEntities sp = Some ids" "make_affected_entities aff n ids = Some affected"
      "relatedEntities sp = Some rl" "hosts rl = Some hs"
      "make_related_hosts rel affected hs = Some related"
      and d: "affected_entities data = dict_by_entity_id affected" "related_hosts data = related"
    unfolding create_data_def by (auto split: Option.bind_splits)
  from make_related_hosts_refs [OF a(5)] d(2)
  have "\<forall>r \<in> set (related_hosts data). set (rel_affected_entities r) \<subseteq> set affected" by simp
  with a d show ?thesis by blast
qed

text \<open>
  A graph that \<open>SecurityData.create\<close> returns is well formed in the store it returns, when
  no identity at or above \<open>next_ident\<close> was in use before.
\<close>

lemma wf_create:
  assumes "create valid_url str_upper s sp aff rel = Inr (s', g)" and "\<forall>a \<in> live s. a < next_ident s"
  shows "wf_graph s' g"
proof -
  let ?n = "next_ident s"
  from assms(1) obtain data where cd: "create_data ?n sp aff rel = Some data"
    and s': "s' = s\<lparr>live := live s \<union> (\<lambda>(k, x). ident x) ` set (affected_entities data),
                     next_ident := ?n + (case affectedEntities sp of None \<Rightarrow> 0 | Some ids \<Rightarrow> length ids)\<rparr>"
    and g: "affected_entities g = affected_entities data" "related_hosts g = related_hosts data"
    unfolding create_def by (auto split: option.splits if_splits)
  from create_data_shape [OF cd] obtain ids affected
    where ids: "affectedEntities sp = Some ids"
      and ma: "make_affected_entities aff ?n ids = Some affected"
      and dd: "affected_entities data = dict_by_entity_id affected"
      and refs: "\<forall>r \<in> set (related_hosts data). set (rel_affected_entities r) \<subseteq> set affected"
    by blast
  note mp = make_affected_entities_idents [OF ma]
  have live': "live s' = live s \<union> (\<lambda>(k, x). ident x) ` set (dict_by_entity_id affected)"
    and next': "next_ident s' = ?n + length ids"
    by (simp_all add: s' dd ids)
  have "distinct (map ident affected)" by (simp only: mp distinct_upt)
  then have inj: "inj_on ident (set affected)" by (simp add: distinct_map)
  have rng: "?n \<le> ident x \<and> ident x < ?n + length ids" if "x \<in> set affected" for x
  proof -
    from that have "ident x \<in> set (map ident affected)" by simp
    then show ?thesis by (simp only: mp) simp
  qed
  note dp = dict_by_entity_id_props [where xs = affected]
  have 1: "distinct (map fst (affected_entities g))" by (simp add: g dd dp(1))
  have inj2: "inj_on (\<lambda>(k, x). ident x) (set (dict_by_entity_id affected))"
  proof (rule inj_onI, clarify)
    fix k x k' x'
    assume a: "(k, x) \<in> set (dict_by_entity_id affected)" "(k', x') \<in> set (dict_by_entity_id affected)"
      "ident x = ident x'"
    from dp(2) [OF a(1)] dp(2) [OF a(2)] a(3) inj have "x = x'" by (auto dest: inj_onD)
    with dp(2) [OF a(1)] dp(2) [OF a(2)] show "k = k' \<and> x = x'" by auto
  qed
  have "distinct (dict_by_entity_id affected)"
    using dp(1) by (simp add: distinct_map)
  with inj2 have "distinct (map (\<lambda>(k, x). ident x) (dict_by_entity_id affected))"
    by (simp add: distinct_map)
  then have 2: "distinct (map (\<lambda>(k, x). ident x) (affected_entities g))"
    by (simp add: g dd)
  have 3: "\<forall>(k, x) \<in> set (affected_entities g). entity_id x = k \<and> ident x \<in> live s'"
  proof (clarify, intro conjI)
    fix k x assume "(k, x) \<in> set (affected_entities g)"
    then have m: "(k, x) \<in> set (dict_by_entity_id affected)" by (simp add: g dd)
    from dp(2) [OF m] show "entity_id x = k" by simp
    from m have "ident x \<in> (\<lambda>(k, x). ident x) ` set (dict_by_entity_id affected)"
      by (rule rev_image_eqI) simp
    then show "ident x \<in> live s'" by (simp add: live')
  qed
  have 4: "\<forall>a \<in> live s'. a < next_ident s'"
  proof
    fix a assume "a \<in> live s'"
    then consider "a \<in> live s" | k x where "(k, x) \<in> set (dict_by_entity_id affected)" "a = ident x"
      by (auto simp: live')
    then show "a < next_ident s'"
    proof cases
      case 1
      with assms(2) show ?thesis by (force simp: next')
    next
      case 2
      with dp(2) [OF 2(1)] rng show ?thesis by (simp add: next')
    qed
  qed
  have 5: "\<forall>r \<in> set (related_hosts g). \<forall>x \<in> set (rel_affected_entities r).
        ident x < next_ident s' \<and>
        (ident x \<in> live s' \<longrightarrow> x \<in> snd ` set (affected_entities g))"
  proof (intro ballI conjI impI)
    fix r x assume r: "r \<in> set (related_hosts g)" and x: "x \<in> set (rel_affected_entities r)"
    from r x refs have xa: "x \<in> set affected" by (auto simp: g)
    from rng [OF xa] show "ident x < next_ident s'" by (simp add: next')
    assume "ident x \<in> live s'"
    moreover have "ident x \<notin> live s" using rng [OF xa] assms(2) by force
    ultimately obtain k y where y: "(k, y) \<in> set (dict_by_entity_id affected)" "ident y = ident x"
      by (auto simp: live')
    from dp(2) [OF y(1)] y(2) xa inj have "y = x" by (auto dest: inj_onD)
    with y(1) show "x \<in> snd ` set (affected_entities g)" by (force simp: g dd)
  qed
  from 1 2 3 4 5 show ?thesis unfolding wf_graph_def by blast
qed

lemma make_affected_entities_Some_iff:
  "(\<exists>aes. make_affected_entities tbl n ids = Some aes) \<longleftrightarrow> (\<forall>i \<in> set ids. tbl i \<noteq> None)"
proof (induction ids arbitrary: n)
  case Nil
  then show ?case by simp
next
  case (Cons i ids)
  show ?case
  proof (cases "tbl i")
    case None
    then show ?thesis by simp
  next
    case (Some e)
    show ?thesis
    proof (cases "make_affected_entities tbl (Suc n) ids")
      case None
      with Some Cons.IH [of "Suc n"] show ?thesis by simp
    next
      case (Some aes)
      with \<open>tbl i = Some e\<close> Cons.IH [of "Suc n"] show ?thesis by simp
    qed
  qed
qed

lemma make_affected_entities_length:
  "make_affected_entities tbl n ids = Some aes \<Longrightarrow> length aes = length ids"
  using make_affected_entities_idents [of tbl n ids aes]
  by (metis length_map length_upt add_diff_cancel_left')

lemma make_related_host_Some_iff:
  "(\<exists>r. make_related_host tbl affected h = Some r) \<longleftrightarrow>
     (\<exists>i. host_id h = Some i \<and> tbl i \<noteq> None)
     \<and> (affected \<noteq> [] \<longrightarrow> host_affectedEntities h \<noteq> None)"
proof (cases "host_id h")
  case None
  then show ?thesis by (simp add: make_related_host_def)
next
  case (Some i)
  show ?thesis
  proof (cases "tbl i")
    case None
    with Some show ?thesis by (simp add: make_related_host_def)
  next
    case e: (Some e)
    show ?thesis
    proof (cases "affected = []")
      case True
      with Some e show ?thesis by (simp add: make_related_host_def)
    next
      case False
      with Some e show ?thesis
        by (cases "host_affectedEntities h") (simp_all add: make_related_host_def)
    qed
  qed
qed

lemma make_related_hosts_Some_iff:
  "(\<exists>rs. make_related_hosts tbl affected hs = Some rs) \<longleftrightarrow>
     (\<forall>h \<in> set hs. (\<exists>i. host_id h = Some i \<and> tbl i \<noteq> None)
        \<and> (affected \<noteq> [] \<longrightarrow> host_affectedEntities h \<noteq> None))"
proof (induction hs)
  case Nil
  then show ?case by simp
next
  case (Cons h hs)
  show ?case
  proof (cases "make_related_host tbl affected h")
    case None
    with make_related_host_Some_iff [of tbl affected h] show ?thesis by auto
  next
    case (Some r)
    with make_related_host_Some_iff [of tbl affected h]
    have h: "(\<exists>i. host_id h = Some i \<and> tbl i \<noteq> None)
       \<and> (affected \<noteq> [] \<longrightarrow> host_affectedEntities h \<noteq> None)" by simp
    show ?thesis
    proof (cases "make_related_hosts tbl affected hs")
      case None
      with Some Cons.IH h show ?thesis by simp
    next
      case rs: (Some rs)
      with Some Cons.IH h show ?thesis by simp
    qed
  qed
qed

lemma display_names_Some_iff:
  "(\<exists>ns. display_names cs = Some ns) \<longleftrightarrow> (\<forall>c \<in> set cs. displayName c \<noteq> None)"
proof (induction cs)
  case Nil
  then show ?case by simp
next
  case (Cons c cs)
  show ?case
  proof (cases "displayName c")
    case None
    then show ?thesis by simp
  next
    case (Some n)
    with Cons.IH show ?thesis by (cases "display_names cs") simp_all
  qed
qed

text \<open>
  When construction gets past the \<open>try\<close> block: the fields it reads are present and the
  ids it looks up are in the tables. The affected-entity list of a related host is read
  only when the record lists an affected entity.
\<close>

lemma create_data_Some_iff:
  "(\<exists>data. create_data n sp aff rel = Some data) \<longleftrightarrow>
     fields_present (affectedEntities sp \<noteq> Some []) sp \<and> referenced_ids_present sp aff rel"
proof
  assume "\<exists>data. create_data n sp aff rel = Some data"
  then obtain data where "create_data n sp aff rel = Some data" ..
  then obtain ids affected rl hs related a1 a2 a3 a4 ra b1 b2 b3 b4 a5 a6 cs names
    where f: "affectedEntities sp = Some ids" "make_affected_entities aff n ids = Some affected"
      "relatedEntities sp = Some rl" "hosts rl = Some hs"
      "make_related_hosts rel affected hs = Some related"
      "securityProblemId sp = Some a1" "displayId sp = Some a2" "sp_title sp = Some a3"
      "sp_url sp = Some a4" "riskAssessment sp = Some ra" "riskScore ra = Some b1"
      "riskLevel ra = Some b2" "ra_exposure ra = Some b3" "dataAssets ra = Some b4"
      "sp_description sp = Some a5" "sp_technology sp = Some a6"
      "vulnerableComponents sp = Some cs" "display_names cs = Some names"
    unfolding create_data_def by (auto split: Option.bind_splits)
  have ho: "hosts_of sp = hs" by (simp add: hosts_of_def f)
  have ai: "\<forall>i \<in> set ids. aff i \<noteq> None"
    using make_affected_entities_Some_iff [of aff n ids] f(2) by blast
  have hh: "\<forall>h \<in> set hs. (\<exists>i. host_id h = Some i \<and> rel i \<noteq> None)
        \<and> (affected \<noteq> [] \<longrightarrow> host_affectedEntities h \<noteq> None)"
    using make_related_hosts_Some_iff [of rel affected hs] f(5) by blast
  have cn: "\<forall>c \<in> set cs. displayName c \<noteq> None"
    using display_names_Some_iff [of cs] f(18) by blast
  have ne: "affected \<noteq> [] \<longleftrightarrow> ids \<noteq> []"
    using make_affected_entities_length [OF f(2)] by auto
  have 1: "fields_present (affectedEntities sp \<noteq> Some []) sp"
    unfolding fields_present_def ho using f hh cn ne by auto
  have 2: "referenced_ids_present sp aff rel"
    unfolding referenced_ids_present_def ho using f(1) ai hh by auto
  from 1 2 show "fields_present (affectedEntities sp \<noteq> Some []) sp \<and> referenced_ids_present sp aff rel"
    by simp
next
  assume a: "fields_present (affectedEntities sp \<noteq> Some []) sp \<and> referenced_ids_present sp aff rel"
  then obtain ids rl hs a1 a2 a3 a4 ra b1 b2 b3 b4 a5 a6 cs
    where f: "affectedEntities sp = Some ids"
      "relatedEntities sp = Some rl" "hosts rl = Some hs"
      "securityProblemId sp = Some a1" "displayId sp = Some a2" "sp_title sp = Some a3"
      "sp_url sp = Some a4" "riskAssessment sp = Some ra" "riskScore ra = Some b1"
      "riskLevel ra = Some b2" "ra_exposure ra = Some b3" "dataAssets ra = Some b4"
      "sp_description sp = Some a5" "sp_technology sp = Some a6"
      "vulnerableComponents sp = Some cs" and cn: "\<forall>c \<in> set cs. displayName c \<noteq> None"
    unfolding fields_present_def by auto
  have ho: "hosts_of sp = hs" by (simp add: hosts_of_def f)
  from a f(1) have "\<forall>i \<in> set ids. aff i \<noteq> None"
    by (simp add: referenced_ids_present_def)
  with make_affected_entities_Some_iff [of aff n ids]
  obtain affected where ma: "make_affected_entities aff n ids = Some affected" by blast
  have ne: "affected \<noteq> [] \<longleftrightarrow> ids \<noteq> []"
    using make_affected_entities_length [OF ma] by auto
  have "\<forall>h \<in> set hs. (\<exists>i. host_id h = Some i \<and> rel i \<noteq> None)
        \<and> (affected \<noteq> [] \<longrightarrow> host_affectedEntities h \<noteq> None)"
  proof
    fix h assume h: "h \<in> set hs"
    from a h have 1: "host_id h \<noteq> None"
      and 2: "affectedEntities sp \<noteq> Some [] \<longrightarrow> host_affectedEntities h \<noteq> None"
      unfolding fields_present_def ho by blast+
    from 1 obtain i where i: "host_id h = Some i" by auto
    from a h i have "rel i \<noteq> None" unfolding referenced_ids_present_def ho by blast
    with i 2 ne f(1) show "(\<exists>i. host_id h = Some i \<and> rel i \<noteq> None)
        \<and> (affected \<noteq> [] \<longrightarrow> host_affectedEntities h \<noteq> None)" by simp
  qed
  with make_related_hosts_Some_iff [of rel affected hs]
  obtain related where mr: "make_related_hosts rel affected hs = Some related" by blast
  from cn display_names_Some_iff [of cs]
  obtain names where dn: "display_names cs = Some names" by blast
  show "\<exists>data. create_data n sp aff rel = Some data"
    by (simp add: create_data_def f ma mr dn)
qed

lemma fields_present_weaken: "fields_present True sp \<Longrightarrow> fields_present b sp"
  unfolding fields_present_def by blast

lemma create_missing_data_iff:
  "create valid_url str_upper s sp aff rel = Inl (ValueError ''SecurityData: missing data'') \<longleftrightarrow>
     \<not> (fields_present (affectedEntities sp \<noteq> Some []) sp \<and> referenced_ids_present sp aff rel)"
proof -
  have "create valid_url str_upper s sp aff rel = Inl (ValueError ''SecurityData: missing data'')
          \<longleftrightarrow> create_data (next_ident s) sp aff rel = None"
    by (simp add: create_def split: option.splits)
  also have "\<dots> \<longleftrightarrow> \<not> (\<exists>data. create_data (next_ident s) sp aff rel = Some data)"
    by auto
  finally show ?thesis by (simp only: create_data_Some_iff)
qed

text \<open>
  Construction fails with the missing-data error only when a required field or a looked-up
  id is absent.
\<close>

lemma create_missing_data_only_if:
  assumes "create valid_url str_upper s sp aff rel = Inl (ValueError ''SecurityData: missing data'')"
  shows "\<not> required_fields_present sp \<or> \<not> referenced_ids_present sp aff rel"
  using assms fields_present_weaken [of sp "affectedEntities sp \<noteq> Some []"]
  unfolding create_missing_data_iff required_fields_present_def by blast

lemma make_affected_entities_mono:
  "tbl \<subseteq>\<^sub>m tbl' \<Longrightarrow> make_affected_entities tbl n ids = Some aes \<Longrightarrow>
     make_affected_entities tbl' n ids = Some aes"
proof (induction ids arbitrary: n aes)
  case Nil
  then show ?case by simp
next
  case (Cons i ids)
  from Cons.prems(2) obtain e aes' where e: "tbl i = Some e"
    and r: "make_affected_entities tbl (Suc n) ids = Some aes'"
    and aes: "aes = \<lparr>ident = n, entity_id = ed_entity_id e,
                      entity_name = ed_entity_name e, tags = ed_tags e\<rparr> # aes'"
    by (auto split: option.splits)
  from e Cons.prems(1) have e': "tbl' i = Some e" by (auto simp: map_le_def dom_def)
  from Cons.IH [OF Cons.prems(1) r] e' aes show ?case by simp
qed

lemma make_related_host_mono:
  assumes "tbl \<subseteq>\<^sub>m tbl'" and "make_related_host tbl affected h = Some r"
  shows "make_related_host tbl' affected h = Some r"
proof -
  from assms(2) obtain i e where i: "host_id h = Some i" and e: "tbl i = Some e"
    unfolding make_related_host_def by (auto split: Option.bind_splits)
  from e assms(1) have e': "tbl' i = Some e" by (auto simp: map_le_def dom_def)
  from assms(2) show ?thesis by (simp add: make_related_host_def i e e')
qed

lemma make_related_hosts_mono:
  "tbl \<subseteq>\<^sub>m tbl' \<Longrightarrow> make_related_hosts tbl affected hs = Some rs \<Longrightarrow>
     make_related_hosts tbl' affected hs = Some rs"
proof (induction hs arbitrary: rs)
  case Nil
  then show ?case by simp
next
  case (Cons h hs)
  from Cons.prems(2) obtain r rs' where 1: "make_related_host tbl affected h = Some r"
    and 2: "make_related_hosts tbl affected hs = Some rs'" and rs: "rs = r # rs'"
    by (auto split: Option.bind_splits)
  from make_related_host_mono [OF Cons.prems(1) 1] Cons.IH [OF Cons.prems(1) 2] rs
  show ?case by simp
qed

lemma create_data_mono:
  assumes "aff \<subseteq>\<^sub>m aff'" and "rel \<subseteq>\<^sub>m rel'" and "create_data n sp aff rel = Some data"
  shows "create_data n sp aff' rel' = Some data"
proof -
  from assms(3) obtain ids affected rl hs related
    where f: "affectedEntities sp = Some ids" "make_affected_entities aff n ids = Some affected"
      "relatedEntities sp = Some rl" "hosts rl = Some hs"
      "make_related_hosts rel affected hs = Some related"
    unfolding create_data_def by (auto split: Option.bind_splits)
  note ma = make_affected_entities_mono [OF assms(1) f(2)]
  note mr = make_related_hosts_mono [OF assms(2) f(5)]
  from assms(3) show ?thesis
    by (simp add: create_data_def f ma mr)
qed

text \<open>Entries of the lookup tables beyond those construction needs change nothing.\<close>

lemma create_surplus:
  assumes "aff \<subseteq>\<^sub>m aff'" and "rel \<subseteq>\<^sub>m rel'"
    and "create valid_url str_upper s sp aff rel = Inr res"
  shows "create valid_url str_upper s sp aff' rel' = Inr res"
proof -
  from assms(3) obtain data where d: "create_data (next_ident s) sp aff rel = Some data"
    unfolding create_def by (auto split: option.splits)
  from create_data_mono [OF assms(1,2) d] d assms(3) show ?thesis
    by (simp add: create_def)
qed

lemma make_related_hosts_from_table:
  "make_related_hosts tbl affected hs = Some rs \<Longrightarrow> r \<in> set rs \<Longrightarrow>
     \<exists>h \<in> set hs. \<exists>i e. host_id h = Some i \<and> tbl i = Some e
        \<and> rel_entity_id r = ed_entity_id e \<and> rel_entity_name r = ed_entity_name e"
proof (induction hs arbitrary: rs)
  case Nil
  then show ?case by simp
next
  case (Cons h hs)
  from Cons.prems(1) obtain r1 rs1 where 1: "make_related_host tbl affected h = Some r1"
    and 2: "make_related_hosts tbl affected hs = Some rs1" and rs: "rs = r1 # rs1"
    by (auto split: Option.bind_splits)
  from Cons.prems(2) rs consider "r = r1" | "r \<in> set rs1" by auto
  then show ?case
  proof cases
    case 1
    with \<open>make_related_host tbl affected h = Some r1\<close>
    have "\<exists>i e. host_id h = Some i \<and> tbl i = Some e
        \<and> rel_entity_id r = ed_entity_id e \<and> rel_entity_name r = ed_entity_name e"
      unfolding make_related_host_def by (auto split: Option.bind_splits if_splits)
    then show ?thesis by auto
  next
    case 2
    from Cons.IH [OF \<open>make_related_hosts tbl affected hs = Some rs1\<close> 2] show ?thesis by auto
  qed
qed

text \<open>
  On success every affected entity of the graph is the entry that the lookup table has for
  an id in the record's list of affected entities, and every related host the entry for the
  id of one of the record's hosts.
\<close>

lemma create_only_referenced:
  assumes "create valid_url str_upper s sp aff rel = Inr (s', g)"
  shows "\<forall>(k, x) \<in> set (affected_entities g).
           \<exists>ids. affectedEntities sp = Some ids
             \<and> (\<exists>i \<in> set ids. \<exists>e. aff i = Some e \<and> entity_id x = ed_entity_id e
                    \<and> entity_name x = ed_entity_name e \<and> tags x = ed_tags e)"
    and "\<forall>r \<in> set (related_hosts g).
           \<exists>h \<in> set (hosts_of sp). \<exists>i e. host_id h = Some i \<and> rel i = Some e
             \<and> rel_entity_id r = ed_entity_id e \<and> rel_entity_name r = ed_entity_name e"
proof -
  from assms obtain data where cd: "create_data (next_ident s) sp aff rel = Some data"
    and g: "affected_entities g = affected_entities data" "related_hosts g = related_hosts data"
    unfolding create_def by (auto split: option.splits if_splits)
  from cd obtain ids affected rl hs related
    where f: "affectedEntities sp = Some ids"
      "make_affected_entities aff (next_ident s) ids = Some affected"
      "relatedEntities sp = Some rl" "hosts rl = Some hs"
      "make_related_hosts rel affected hs = Some related"
      and d: "affected_entities data = dict_by_entity_id affected" "related_hosts data = related"
    unfolding create_data_def by (auto split: Option.bind_splits)
  show "\<forall>(k, x) \<in> set (affected_entities g).
           \<exists>ids. affectedEntities sp = Some ids
             \<and> (\<exists>i \<in> set ids. \<exists>e. aff i = Some e \<and> entity_id x = ed_entity_id e
                    \<and> entity_name x = ed_entity_name e \<and> tags x = ed_tags e)"
  proof clarify
    fix k x assume "(k, x) \<in> set (affected_entities g)"
    then have "(k, x) \<in> set (dict_by_entity_id affected)" by (simp add: g d)
    from dict_by_entity_id_props(2) [OF this] have "x \<in> set affected" by simp
    from make_affected_entities_from_table [OF f(2) this] f(1)
    show "\<exists>ids. affectedEntities sp = Some ids
             \<and> (\<exists>i \<in> set ids. \<exists>e. aff i = Some e \<and> entity_id x = ed_entity_id e
                    \<and> entity_name x = ed_entity_name e \<and> tags x = ed_tags e)" by simp
  qed
  have ho: "hosts_of sp = hs" by (simp add: hosts_of_def f)
  show "\<forall>r \<in> set (related_hosts g).
           \<exists>h \<in> set (hosts_of sp). \<exists>i e. host_id h = Some i \<and> rel i = Some e
             \<and> rel_entity_id r = ed_entity_id e \<and> rel_entity_name r = ed_entity_name e"
  proof
    fix r assume "r \<in> set (related_hosts g)"
    then have "r \<in> set related" by (simp add: g d)
    from make_related_hosts_from_table [OF f(5) this]
    show "\<exists>h \<in> set (hosts_of sp). \<exists>i e. host_id h = Some i \<and> rel i = Some e
             \<and> rel_entity_id r = ed_entity_id e \<and> rel_entity_name r = ed_entity_name e"
      by (simp only: ho)
  qed
qed



end
